theory Spec2Isabelle
  imports Main "HOL-Library.Sublist"
begin

section \<open>Data model and operations of the editor engine\<close>

text \<open>
  The definitions follow \<^verbatim>\<open>src/server.js\<close>; where the older revision of the same file,
  \<^verbatim>\<open>src/unnamed/part_000\<close>, differs, the difference is modelled under a name of its own.

  JavaScript strings are sequences of UTF-16 code units. The development represents a
  string as a list of characters; the search engine is polymorphic in the character type,
  the trie and the tokenisers use HOL's 8-bit \<open>char\<close> (code units below 256).
  JavaScript numbers that hold indices are modelled as \<open>int\<close>.
\<close>

subsection \<open>Undo / redo stacks (class UndoRedoManager)\<close>

text \<open>
  The two stacks are JavaScript arrays: \<open>push\<close> appends at the end, \<open>pop\<close> removes the
  last element and \<open>shift\<close> removes the first one. The top of a stack is therefore the
  last element of the list.
\<close>

record UndoRedoManager =
  undoStack :: "string list"
  redoStack :: "string list"
  maxSize :: nat

definition UndoRedoManager_new :: UndoRedoManager where
  "UndoRedoManager_new = \<lparr>undoStack = [], redoStack = [], maxSize = 50\<rparr>"

definition saveState :: "UndoRedoManager \<Rightarrow> string \<Rightarrow> UndoRedoManager" where
  "saveState h text =
     (if length (undoStack h) = 0 \<or> last (undoStack h) \<noteq> text then
        let pushed = undoStack h @ [text];
            shifted = (if length pushed > maxSize h then tl pushed else pushed)
        in h\<lparr>undoStack := shifted, redoStack := []\<rparr>
      else h)"

definition undo :: "UndoRedoManager \<Rightarrow> string \<Rightarrow> string \<times> UndoRedoManager" where
  "undo h currentText =
     (if length (undoStack h) = 0 then (currentText, h)
      else
        let previous = last (undoStack h);
            h1 = h\<lparr>undoStack := butlast (undoStack h)\<rparr>;
            h2 = h1\<lparr>redoStack := redoStack h1 @ [currentText]\<rparr>
        in (previous, h2))"

definition redo :: "UndoRedoManager \<Rightarrow> string \<Rightarrow> string \<times> UndoRedoManager" where
  "redo h currentText =
     (if length (redoStack h) = 0 then (currentText, h)
      else
        let next = last (redoStack h);
            h1 = h\<lparr>redoStack := butlast (redoStack h)\<rparr>;
            h2 = h1\<lparr>undoStack := undoStack h1 @ [currentText]\<rparr>
        in (next, h2))"

text \<open>A call of one of the three methods, and a run of a sequence of calls. The value a
  call returns is dropped: only the manager's state is followed.\<close>

datatype history_call = SaveState string | Undo string | Redo string

fun history_step :: "UndoRedoManager \<Rightarrow> history_call \<Rightarrow> UndoRedoManager" where
  "history_step h (SaveState t) = saveState h t"
| "history_step h (Undo c) = snd (undo h c)"
| "history_step h (Redo c) = snd (redo h c)"

definition history_run :: "history_call list \<Rightarrow> UndoRedoManager" where
  "history_run calls = foldl history_step UndoRedoManager_new calls"

text \<open>Undo followed by redo, each call given the text the previous one returned.\<close>

definition undo_then_redo :: "UndoRedoManager \<Rightarrow> string \<Rightarrow> string \<times> UndoRedoManager" where
  "undo_then_redo h c = (case undo h c of (p, h1) \<Rightarrow> redo h1 p)"


subsection \<open>Rope (classes RopeNode and Rope)\<close>

text \<open>
  A node has a string value, two child references that may be \<open>null\<close> and a weight. The
  constructor builds a leaf whose weight is the length of its value. \<open>toString\<close> reads a
  \<open>null\<close> reference as the empty string, a node without children as its value, and any
  other node as the concatenation of what its two children read as.
\<close>

datatype RopeNode =
  RopeNode (node_value: string) (left: "RopeNode option") (right: "RopeNode option") (weight: nat)

definition RopeNode_new :: "string \<Rightarrow> RopeNode" where
  "RopeNode_new v = RopeNode v None None (length v)"

record Rope =
  root :: RopeNode

definition Rope_new :: "string \<Rightarrow> Rope" where
  "Rope_new str = \<lparr>root = RopeNode_new str\<rparr>"

fun toString :: "RopeNode option \<Rightarrow> string" where
  "toString None = []"
| "toString (Some (RopeNode v l r w)) =
     (if l = None \<and> r = None then v else toString l @ toString r)"

definition Rope_toString :: "Rope \<Rightarrow> string" where
  "Rope_toString rope = toString (Some (root rope))"

text \<open>
  \<open>String.prototype.slice(start, end)\<close>: a negative index counts from the end and is
  floored at 0, an index beyond the length is the length, a missing \<open>end\<close> is the length,
  and the result is empty when the start is not before the end.
\<close>

definition slice_index :: "nat \<Rightarrow> int \<Rightarrow> nat" where
  "slice_index len i = (if i < 0 then nat (max (int len + i) 0) else nat (min i (int len)))"

definition slice :: "'a list \<Rightarrow> int \<Rightarrow> int option \<Rightarrow> 'a list" where
  "slice s start fin =
     (let len = length s;
          from = slice_index len start;
          to = (case fin of None \<Rightarrow> len | Some e \<Rightarrow> slice_index len e)
      in if from \<ge> to then [] else take (to - from) (drop from s))"

text \<open>\<open>insert\<close> and \<open>delete\<close> return the new text and replace the root by a single leaf.
  (\<open>delete\<close> is the method of the revision in \<^verbatim>\<open>src/unnamed/part_000\<close>.)\<close>

definition Rope_insert :: "Rope \<Rightarrow> int \<Rightarrow> string \<Rightarrow> string \<times> Rope" where
  "Rope_insert rope index text =
     (let currentText = Rope_toString rope;
          newText = slice currentText 0 (Some index) @ text @ slice currentText index None
      in (newText, rope\<lparr>root := RopeNode_new newText\<rparr>))"

definition Rope_delete :: "Rope \<Rightarrow> int \<Rightarrow> int \<Rightarrow> string \<times> Rope" where
  "Rope_delete rope start fin =
     (let currentText = Rope_toString rope;
          newText = slice currentText 0 (Some start) @ slice currentText fin None
      in (newText, rope\<lparr>root := RopeNode_new newText\<rparr>))"


subsection \<open>Boyer-Moore search (function boyerMooreSearch)\<close>

text \<open>
  Indexing a string out of range (\<open>text[k]\<close> with \<open>k < 0\<close> or \<open>k \<ge> length\<close>) yields
  \<open>undefined\<close>, here \<open>None\<close>.
\<close>

definition char_at :: "'a list \<Rightarrow> int \<Rightarrow> 'a option" where
  "char_at s i = (if 0 \<le> i \<and> i < int (length s) then Some (s ! nat i) else None)"

text \<open>The bad-character table: an object keyed by the characters of the pattern; a later
  index overwrites an earlier one.\<close>

definition build_badChar :: "'a list \<Rightarrow> ('a \<rightharpoonup> int)" where
  "build_badChar pattern =
     foldl (\<lambda>badChar i. badChar(pattern ! i \<mapsto> int i)) Map.empty [0..<length pattern]"

text \<open>\<open>badChar[text[k]]\<close>: when \<open>text[k]\<close> is \<open>undefined\<close> the key read is the nine-letter
  string "undefined", which the table never holds, so the lookup is \<open>undefined\<close> too.\<close>

definition badChar_at :: "('a \<rightharpoonup> int) \<Rightarrow> 'a list \<Rightarrow> int \<Rightarrow> int option" where
  "badChar_at badChar text k = (case char_at text k of None \<Rightarrow> None | Some c \<Rightarrow> badChar c)"

text \<open>The inner loop \<open>while (j >= 0 && pattern[j] === text[s + j]) j--\<close>; the result is
  the value of \<open>j\<close> when it ends.\<close>

function compare_back :: "'a list \<Rightarrow> 'a list \<Rightarrow> int \<Rightarrow> int \<Rightarrow> int" where
  "compare_back text pattern s j =
     (if j \<ge> 0 \<and> char_at pattern j = char_at text (s + j)
      then compare_back text pattern s (j - 1) else j)"
  by pat_completeness auto
termination
  by (relation "measure (\<lambda>(text, pattern, s, j). nat (j + 1))") auto

declare compare_back.simps [simp del]

text \<open>
  The shift after a full match, \<open>(s + m < n) ? m - badChar[text[s + m]] || -1 : 1\<close>.
  The conditional binds weaker than \<open>||\<close>. When the character is not in the table the
  difference is \<open>NaN\<close>; \<open>NaN\<close> and \<open>0\<close> are falsy, so \<open>||\<close> then yields \<open>-1\<close>.
\<close>

definition match_shift :: "('a \<rightharpoonup> int) \<Rightarrow> 'a list \<Rightarrow> int \<Rightarrow> int \<Rightarrow> int \<Rightarrow> int" where
  "match_shift badChar text m n s =
     (if s + m < n then
        (case badChar_at badChar text (s + m) of
           None \<Rightarrow> - 1
         | Some i \<Rightarrow> (if m - i = 0 then - 1 else m - i))
      else 1)"

text \<open>The shift after a mismatch at \<open>j\<close>,
  \<open>Math.max(1, j - (badChar[text[s + j]] !== undefined ? badChar[text[s + j]] : -1))\<close>.\<close>

definition mismatch_shift :: "('a \<rightharpoonup> int) \<Rightarrow> 'a list \<Rightarrow> int \<Rightarrow> int \<Rightarrow> int" where
  "mismatch_shift badChar text s j =
     max 1 (j - (case badChar_at badChar text (s + j) of Some i \<Rightarrow> i | None \<Rightarrow> - 1))"

text \<open>The outer loop \<open>while (s <= n - m)\<close>. It may run forever, so it is a partial function:
  \<open>None\<close> is the loop that never ends, \<open>Some results\<close> the array returned.\<close>

partial_function (option) search_loop ::
  "'a list \<Rightarrow> 'a list \<Rightarrow> ('a \<rightharpoonup> int) \<Rightarrow> int \<Rightarrow> int list \<Rightarrow> int list option" where
  "search_loop text pattern badChar s results =
     (let m = int (length pattern); n = int (length text) in
      if s \<le> n - m then
        let j = compare_back text pattern s (m - 1) in
        if j < 0 then
          search_loop text pattern badChar (s + match_shift badChar text m n s) (results @ [s])
        else
          search_loop text pattern badChar (s + mismatch_shift badChar text s j) results
      else Some results)"

definition boyerMooreSearch :: "'a list \<Rightarrow> 'a list \<Rightarrow> int list option" where
  "boyerMooreSearch text pattern =
     (if length pattern = 0 then Some []
      else search_loop text pattern (build_badChar pattern) 0 [])"

text \<open>What the contract asks of the result: \<open>i\<close> is an occurrence when
  \<open>text[i : i + len(pattern)] = pattern\<close>.\<close>

definition occurs_at :: "'a list \<Rightarrow> 'a list \<Rightarrow> int \<Rightarrow> bool" where
  "occurs_at text pattern i = (0 \<le> i \<and> take (length pattern) (drop (nat i) text) = pattern)"


subsection \<open>Trie (classes TrieNode and Trie)\<close>

text \<open>
  A node holds an object \<open>children\<close> keyed by one-character strings and the flag
  \<open>isEndOfWord\<close>. The object is an association list in the order in which \<open>for ... in\<close>
  enumerates its keys: keys that are array indices (the digits \<open>0\<close> to \<open>9\<close>) first, in
  ascending order, then every other key in the order of its creation. Assigning to an
  existing key keeps its place.
\<close>

datatype TrieNode = TrieNode (children: "(char \<times> TrieNode) list") (isEndOfWord: bool)

definition TrieNode_new :: TrieNode where
  "TrieNode_new = TrieNode [] False"

definition is_index_key :: "char \<Rightarrow> bool" where
  "is_index_key c = (48 \<le> (of_char c :: nat) \<and> (of_char c :: nat) \<le> 57)"

definition set_property :: "(char \<times> 'v) list \<Rightarrow> char \<Rightarrow> 'v \<Rightarrow> (char \<times> 'v) list" where
  "set_property props k v =
     (if k \<in> fst ` set props then map (\<lambda>(k', v'). if k' = k then (k', v) else (k', v')) props
      else if is_index_key k then
        takeWhile (\<lambda>(k', v'). is_index_key k' \<and> (of_char k' :: nat) < of_char k) props
        @ [(k, v)]
        @ dropWhile (\<lambda>(k', v'). is_index_key k' \<and> (of_char k' :: nat) < of_char k) props
      else props @ [(k, v)])"

text \<open>\<open>String.prototype.toLowerCase\<close> on code units below 256: the letters \<open>A\<close> to \<open>Z\<close> and
  the Latin-1 capitals (192 to 222 except the multiplication sign 215) move up by 32.\<close>

definition lower_char :: "char \<Rightarrow> char" where
  "lower_char c =
     (let n = (of_char c :: nat)
      in if (65 \<le> n \<and> n \<le> 90) \<or> (192 \<le> n \<and> n \<le> 222 \<and> n \<noteq> 215) then char_of (n + 32)
         else c)"

definition toLowerCase :: "string \<Rightarrow> string" where
  "toLowerCase s = map lower_char s"

text \<open>A \<open>Trie\<close> object holds only its root node and is identified with it. \<open>insert\<close> walks
  down from the root, creating the missing children, and sets the flag of the last node.\<close>

fun insert_from :: "TrieNode \<Rightarrow> string \<Rightarrow> TrieNode" where
  "insert_from node [] = TrieNode (children node) True"
| "insert_from node (c # cs) =
     (let child = (case map_of (children node) c of None \<Rightarrow> TrieNode_new | Some n \<Rightarrow> n)
      in TrieNode (set_property (children node) c (insert_from child cs)) (isEndOfWord node))"

definition Trie_insert :: "TrieNode \<Rightarrow> string \<Rightarrow> TrieNode" where
  "Trie_insert root_node word = insert_from root_node (toLowerCase word)"

text \<open>The walk along a string shared by \<open>find\<close> and \<open>contains\<close>: \<open>None\<close> when a child is
  missing.\<close>

fun walk :: "TrieNode \<Rightarrow> string \<Rightarrow> TrieNode option" where
  "walk node [] = Some node"
| "walk node (c # cs) = (case map_of (children node) c of None \<Rightarrow> None | Some n \<Rightarrow> walk n cs)"

text \<open>\<open>_findAllWords\<close>; the cap of \<open>slice(0, 8)\<close> is a parameter, since the revision in
  \<^verbatim>\<open>src/unnamed/part_000\<close> differs from src/server.js only by its cap of 10.\<close>

fun findAllWords :: "nat \<Rightarrow> TrieNode \<Rightarrow> string \<Rightarrow> string list" where
  "findAllWords cap (TrieNode kids e) currentPrefix =
     take cap ((if e then [currentPrefix] else []) @
       concat (map (\<lambda>(c, child). findAllWords cap child (currentPrefix @ [c])) kids))"

definition find_capped :: "nat \<Rightarrow> TrieNode \<Rightarrow> string \<Rightarrow> string list" where
  "find_capped cap root_node pfx =
     (let lowered = toLowerCase pfx
      in case walk root_node lowered of
           None \<Rightarrow> []
         | Some node \<Rightarrow> findAllWords cap node lowered)"

definition Trie_find :: "TrieNode \<Rightarrow> string \<Rightarrow> string list" where
  "Trie_find = find_capped 8"

definition Trie_find_part_000 :: "TrieNode \<Rightarrow> string \<Rightarrow> string list" where
  "Trie_find_part_000 = find_capped 10"


text \<open>The words a trie holds are the strings whose walk ends in a node with the flag set.
  An object has each key once; \<open>unique_keys\<close> says so of every node of a trie.\<close>

definition holds_word :: "TrieNode \<Rightarrow> string \<Rightarrow> bool" where
  "holds_word node w = (case walk node w of None \<Rightarrow> False | Some n \<Rightarrow> isEndOfWord n)"

fun unique_keys :: "TrieNode \<Rightarrow> bool" where
  "unique_keys (TrieNode kids e) =
     (distinct (map fst kids) \<and> (\<forall>(c, child) \<in> set kids. unique_keys child))"

text \<open>The base dictionary \<open>keywords\<close> and the process-wide trie built from it.\<close>

definition keywords_list :: "string list" where
  "keywords_list = [
    ''function'', ''return'', ''const'', ''let'', ''var'', ''import'', ''export'',
    ''class'', ''console'', ''log'', ''async'', ''await'', ''structure'', ''rope'',
    ''trie'', ''stack'', ''algorithm'', ''linkedlist'', ''queue'', ''heap'', ''graph'',
    ''traverse'', ''binary'', ''the'', ''be'', ''to'', ''of'', ''and'', ''a'', ''in'',
    ''that'', ''have'', ''i'', ''it'', ''for'', ''not'', ''on'', ''with'', ''he'', ''as'',
    ''you'', ''do'', ''at'', ''this'', ''but'', ''his'', ''by'', ''from'', ''they'',
    ''we'', ''say'', ''her'', ''she'', ''or'', ''an'', ''will'', ''my'', ''one'', ''all'',
    ''would'', ''there'', ''their'', ''what'', ''so'', ''up'', ''out'', ''if'', ''about'',
    ''who'', ''get'', ''which'', ''go'', ''me'', ''when'', ''make'', ''can'', ''like'',
    ''time'', ''no'', ''just'', ''him'', ''know'', ''take'', ''people'', ''into'',
    ''year'', ''good'', ''some'', ''could'', ''them'', ''see'', ''other'', ''than'',
    ''then'', ''now'', ''look'', ''only'', ''come'', ''its'', ''over'', ''think'',
    ''also'', ''back'', ''after'', ''use'', ''two'', ''how'', ''our'', ''work'', ''first'',
    ''well'', ''way'', ''even'', ''new'', ''want'', ''because'', ''any'', ''these'',
    ''give'', ''most'', ''us'', ''many'', ''must'', ''before'', ''call'', ''down'',
    ''find'', ''better'', ''editor'', ''project'', ''learning'', ''data'', ''efficient'',
    ''modern'', ''design'', ''development'', ''program'', ''search'', ''replace'',
    ''option'', ''using'', ''implement'', ''create'', ''application'', ''text'', ''file'',
    ''tab'', ''split'', ''hello'', ''world'', ''welcome'', ''demo'', ''check'',
    ''spelling'', ''error'', ''correct'', ''wrong'', ''right'', ''code'', ''web'', ''is'',
    ''are'', ''am'', ''was'', ''were'', ''been'', ''being'']"

definition Trie_of :: "string list \<Rightarrow> TrieNode" where
  "Trie_of ws = foldl Trie_insert TrieNode_new ws"

definition suggestionTrie_initial :: TrieNode where
  "suggestionTrie_initial = Trie_of keywords_list"


subsection \<open>Spell check (route /api/check-spelling)\<close>












subsection \<open>Server state and the update route (POST /api/file/:name/update)\<close>

text \<open>
  The registry \<open>files\<close> maps a name to a document (its rope and its history); the
  suggestion trie is shared by all documents. A missing name is answered with 404.
\<close>

record document =
  content :: Rope
  history :: UndoRedoManager

record server =
  files :: "string \<rightharpoonup> document"
  suggestionTrie :: TrieNode

datatype response = Success | NotFound

text \<open>\<open>text.split(/[\s\n\.\,\!\?]+/)\<close>: the pieces between the maximal runs of separators,
  empty pieces at either end included. White space below code unit 256 is tab, line feed,
  vertical tab, form feed, carriage return, space and the no-break space.\<close>

definition is_separator :: "char \<Rightarrow> bool" where
  "is_separator c =
     (let n = (of_char c :: nat)
      in (9 \<le> n \<and> n \<le> 13) \<or> n = 32 \<or> n = 160 \<or> n = 46 \<or> n = 44 \<or> n = 33 \<or> n = 63)"

function split_pieces :: "string \<Rightarrow> string \<Rightarrow> string list" where
  "split_pieces piece [] = [piece]"
| "split_pieces piece (c # cs) =
     (if is_separator c then piece # split_pieces [] (dropWhile is_separator cs)
      else split_pieces (piece @ [c]) cs)"
  by pat_completeness auto
termination
  by (relation "measure (\<lambda>(piece, rest). length rest)")
     (auto simp: less_Suc_eq_le length_dropWhile_le)

definition split_text :: "string \<Rightarrow> string list" where
  "split_text text = split_pieces [] text"

text \<open>The learning mechanism: every piece longer than two characters is inserted.\<close>

definition learn :: "TrieNode \<Rightarrow> string \<Rightarrow> TrieNode" where
  "learn trie text =
     foldl (\<lambda>tr w. if length w > 2 then Trie_insert tr (toLowerCase w) else tr) trie
       (split_text text)"

definition update_file :: "server \<Rightarrow> string \<Rightarrow> string \<Rightarrow> response \<times> server" where
  "update_file sv name text =
     (case files sv name of
        None \<Rightarrow> (NotFound, sv)
      | Some doc \<Rightarrow>
          let currentStr = Rope_toString (content doc) in
          if currentStr \<noteq> text then
            let doc1 = doc\<lparr>history := saveState (history doc) currentStr\<rparr>;
                doc2 = doc1\<lparr>content := Rope_new text\<rparr>
            in (Success, sv\<lparr>files := (files sv)(name \<mapsto> doc2),
                            suggestionTrie := learn (suggestionTrie sv) text\<rparr>)
          else (Success, sv))"

text \<open>The same route in the revision of \<^verbatim>\<open>src/unnamed/part_000\<close>, which has no comparison of
  the old and the new text.\<close>

definition update_file_part_000 :: "server \<Rightarrow> string \<Rightarrow> string \<Rightarrow> response \<times> server" where
  "update_file_part_000 sv name text =
     (case files sv name of
        None \<Rightarrow> (NotFound, sv)
      | Some doc \<Rightarrow>
          let currentStr = Rope_toString (content doc);
              doc1 = doc\<lparr>history := saveState (history doc) currentStr\<rparr>;
              doc2 = doc1\<lparr>content := Rope_new text\<rparr>
          in (Success, sv\<lparr>files := (files sv)(name \<mapsto> doc2),
                          suggestionTrie := learn (suggestionTrie sv) text\<rparr>))"


section \<open>Properties\<close>

subsection \<open>History manager\<close>

lemma saveState_same_top:
  "undoStack h \<noteq> [] \<Longrightarrow> last (undoStack h) = t \<Longrightarrow> saveState h t = h"
  by (simp add: saveState_def)

lemma saveState_push:
  assumes "undoStack h = [] \<or> last (undoStack h) \<noteq> t"
  shows "redoStack (saveState h t) = []"
    and "maxSize (saveState h t) = maxSize h"
    and "undoStack (saveState h t) =
           (if length (undoStack h @ [t]) > maxSize h then tl (undoStack h @ [t])
            else undoStack h @ [t])"
  using assms by (auto simp: saveState_def Let_def)

lemma maxSize_foldl_saveState:
  "maxSize (foldl saveState h ts) = maxSize h"
  by (induction ts arbitrary: h) (auto simp: saveState_def Let_def)

lemma undoStack_foldl_saveState:
  assumes "distinct ts"
  shows "undoStack (foldl saveState UndoRedoManager_new ts) = drop (length ts - 50) ts
       \<and> redoStack (foldl saveState UndoRedoManager_new ts) = []"
  using assms
proof (induction ts rule: rev_induct)
  case Nil
  show ?case by (simp add: UndoRedoManager_new_def)
next
  case (snoc t ts)
  let ?h = "foldl saveState UndoRedoManager_new ts"
  let ?u = "drop (length ts - 50) ts"
  from snoc have u: "undoStack ?h = ?u" and d: "t \<notin> set ts" by auto
  have m: "maxSize ?h = 50"
    by (simp add: maxSize_foldl_saveState UndoRedoManager_new_def)
  have top: "undoStack ?h = [] \<or> last (undoStack ?h) \<noteq> t"
  proof (cases "?u = []")
    case True with u show ?thesis by simp
  next
    case False
    then have "last ?u \<in> set ts" by (meson in_set_dropD last_in_set)
    with d u show ?thesis by auto
  qed
  have len: "length ?u = min (length ts) 50" by auto
  have "undoStack (saveState ?h t) = drop (length (ts @ [t]) - 50) (ts @ [t])"
  proof (cases "length ts < 50")
    case True
    then show ?thesis using saveState_push(3)[OF top] u m by simp
  next
    case False
    then have ne: "?u \<noteq> []" by auto
    have "undoStack (saveState ?h t) = tl (?u @ [t])"
      using saveState_push(3)[OF top] u m len False by simp
    also have "\<dots> = tl ?u @ [t]" using ne by simp
    also have "tl ?u = drop (Suc (length ts - 50)) ts" by (simp add: drop_Suc tl_drop)
    also have "Suc (length ts - 50) = length (ts @ [t]) - 50" using False by simp
    finally show ?thesis using False by simp
  qed
  moreover have "redoStack (saveState ?h t) = []" using saveState_push(1)[OF top] .
  ultimately show ?case by simp
qed

text \<open>
  C6. \<open>saveState t\<close> on a manager with the constructor's bound of 50: when \<open>t\<close> equals the
  top of the undo stack the call changes nothing; otherwise \<open>t\<close> is pushed, the redo stack
  is cleared, and when the push makes the undo stack longer than 50 its oldest (first)
  entry is dropped. Saving 51 pairwise distinct snapshots into a fresh manager leaves
  exactly the last 50 on the undo stack, so the first one can no longer be undone to.
\<close>

theorem saveState_contract:
  assumes "maxSize h = 50"
  shows "(undoStack h \<noteq> [] \<and> last (undoStack h) = t \<longrightarrow> saveState h t = h)
       \<and> (undoStack h = [] \<or> last (undoStack h) \<noteq> t \<longrightarrow>
            redoStack (saveState h t) = []
          \<and> undoStack (saveState h t) =
              (if length (undoStack h @ [t]) > 50 then tl (undoStack h @ [t])
               else undoStack h @ [t]))
       \<and> (distinct ts \<and> length ts = 51 \<longrightarrow>
            undoStack (foldl saveState UndoRedoManager_new ts) = tl ts
          \<and> hd ts \<notin> set (undoStack (foldl saveState UndoRedoManager_new ts)))"
proof (intro conjI impI)
  assume "undoStack h \<noteq> [] \<and> last (undoStack h) = t"
  then show "saveState h t = h" by (simp add: saveState_same_top)
next
  assume a: "undoStack h = [] \<or> last (undoStack h) \<noteq> t"
  show "redoStack (saveState h t) = []" using saveState_push(1)[OF a] .
  show "undoStack (saveState h t) =
      (if length (undoStack h @ [t]) > 50 then tl (undoStack h @ [t]) else undoStack h @ [t])"
    using saveState_push(3)[OF a] assms by simp
next
  assume a: "distinct ts \<and> length ts = 51"
  then obtain x xs where ts: "ts = x # xs" by (cases ts) auto
  from a have "undoStack (foldl saveState UndoRedoManager_new ts) = drop 1 ts"
    using undoStack_foldl_saveState[of ts] by simp
  then show u: "undoStack (foldl saveState UndoRedoManager_new ts) = tl ts"
    by (simp add: drop_Suc)
  show "hd ts \<notin> set (undoStack (foldl saveState UndoRedoManager_new ts))"
    using a u ts by auto
qed


theorem saveState_contract_witness:
  "maxSize \<lparr>undoStack = [''a''], redoStack = [''r''], maxSize = 50\<rparr> = 50
   \<and> saveState \<lparr>undoStack = [''a''], redoStack = [''r''], maxSize = 50\<rparr> ''a''
       = \<lparr>undoStack = [''a''], redoStack = [''r''], maxSize = 50\<rparr>
   \<and> redoStack (saveState \<lparr>undoStack = [''a''], redoStack = [''r''], maxSize = 50\<rparr> ''b'') = []
   \<and> undoStack (saveState \<lparr>undoStack = [''a''], redoStack = [''r''], maxSize = 50\<rparr> ''b'')
       = [''a'', ''b'']
   \<and> distinct (map (\<lambda>n. replicate n CHR ''x'') [0..<51])
   \<and> length (map (\<lambda>n. replicate n CHR ''x'') [0..<51]) = 51
   \<and> undoStack (foldl saveState UndoRedoManager_new (map (\<lambda>n. replicate n CHR ''x'') [0..<51]))
       = map (\<lambda>n. replicate n CHR ''x'') [1..<51]
   \<and> [] \<notin> set (undoStack
         (foldl saveState UndoRedoManager_new (map (\<lambda>n. replicate n CHR ''x'') [0..<51])))"
proof -
  let ?h = "\<lparr>undoStack = [''a''], redoStack = [''r''], maxSize = 50\<rparr>"
  let ?ts = "map (\<lambda>n. replicate n CHR ''x'') [0..<51]"
  have m: "maxSize ?h = 50" by simp
  have inj: "inj_on (\<lambda>n. replicate n CHR ''x'') (set [0..<51])"
    by (rule inj_onI) (metis length_replicate)
  have d: "distinct ?ts" using inj by (simp add: distinct_map)
  have l: "length ?ts = 51" by simp
  have tl: "tl ?ts = map (\<lambda>n. replicate n CHR ''x'') [1..<51]"
    by (simp add: upt_conv_Cons[of 0 51] del: upt_Suc)
  have hd: "hd ?ts = []" by (simp add: upt_conv_Cons[of 0 51] del: upt_Suc)
  note a = saveState_contract[OF m, of "''a''" ?ts]
  note b = saveState_contract[OF m, of "''b''" ?ts]
  have 1: "saveState ?h ''a'' = ?h" using a by simp
  have 2: "redoStack (saveState ?h ''b'') = []" using b by simp
  have 3: "undoStack (saveState ?h ''b'') = [''a'', ''b'']" using b by simp
  have 4: "undoStack (foldl saveState UndoRedoManager_new ?ts) = tl ?ts"
    using a d l by blast
  have 5: "hd ?ts \<notin> set (undoStack (foldl saveState UndoRedoManager_new ?ts))"
    using a d l by blast
  show ?thesis using m 1 2 3 d l 4 5 unfolding tl hd by blast
qed

lemma undo_empty: "undoStack h = [] \<Longrightarrow> undo h c = (c, h)"
  by (simp add: undo_def)

lemma undo_nonempty:
  "undoStack h \<noteq> [] \<Longrightarrow>
   undo h c = (last (undoStack h),
               h\<lparr>undoStack := butlast (undoStack h), redoStack := redoStack h @ [c]\<rparr>)"
  by (simp add: undo_def Let_def)

lemma redo_empty: "redoStack h = [] \<Longrightarrow> redo h c = (c, h)"
  by (simp add: redo_def)

lemma redo_nonempty:
  "redoStack h \<noteq> [] \<Longrightarrow>
   redo h c = (last (redoStack h),
               h\<lparr>redoStack := butlast (redoStack h), undoStack := undoStack h @ [c]\<rparr>)"
  by (simp add: redo_def Let_def)

lemma undo_then_redo_restores:
  assumes "undoStack h \<noteq> [] \<or> redoStack h = []"
  shows "undo_then_redo h c = (c, h)"
proof (cases "undoStack h = []")
  case True
  with assms show ?thesis by (simp add: undo_then_redo_def undo_empty redo_empty)
next
  case False
  then show ?thesis
    by (simp add: undo_then_redo_def undo_nonempty redo_nonempty)
qed

text \<open>
  C7, as the claim states it, fails: on a manager whose undo stack is empty and whose redo
  stack is not, \<open>undo\<close> is a no-op and the \<open>redo\<close> that follows pops the redo stack, so the
  pair does not restore the text. The state used here is the one a fresh manager reaches
  by \<open>saveState ''a''\<close> and then \<open>undo ''b''\<close>.
\<close>

theorem undo_then_redo_counterexample:
  "snd (undo (saveState UndoRedoManager_new ''a'') ''b'')
     = \<lparr>undoStack = [], redoStack = [''b''], maxSize = 50\<rparr>
   \<and> undo_then_redo \<lparr>undoStack = [], redoStack = [''b''], maxSize = 50\<rparr> ''a''
     = (''b'', \<lparr>undoStack = [''a''], redoStack = [], maxSize = 50\<rparr>)
   \<and> undo_then_redo \<lparr>undoStack = [], redoStack = [''b''], maxSize = 50\<rparr> ''a''
     \<noteq> (''a'', \<lparr>undoStack = [], redoStack = [''b''], maxSize = 50\<rparr>)"
  by (simp add: undo_then_redo_def undo_def redo_def saveState_def UndoRedoManager_new_def
      Let_def)

text \<open>
  C7, amended. \<open>undo c\<close> on an empty undo stack returns \<open>c\<close> and changes neither stack; on a
  non-empty undo stack it removes the top snapshot, pushes \<open>c\<close> on the redo stack and
  returns the removed snapshot; \<open>redo c\<close> is the mirror image. Whenever the undo stack is
  non-empty or the redo stack is empty, undo followed by redo (each call given the text
  the previous one returned) returns the text it started from and restores both stacks.
\<close>

theorem undo_redo_contract:
  "(undoStack h = [] \<longrightarrow> undo h c = (c, h))
 \<and> (undoStack h \<noteq> [] \<longrightarrow>
      undo h c = (last (undoStack h),
                  h\<lparr>undoStack := butlast (undoStack h), redoStack := redoStack h @ [c]\<rparr>))
 \<and> (redoStack h = [] \<longrightarrow> redo h c = (c, h))
 \<and> (redoStack h \<noteq> [] \<longrightarrow>
      redo h c = (last (redoStack h),
                  h\<lparr>redoStack := butlast (redoStack h), undoStack := undoStack h @ [c]\<rparr>))
 \<and> (undoStack h \<noteq> [] \<or> redoStack h = [] \<longrightarrow> undo_then_redo h c = (c, h))"
  using undo_empty undo_nonempty redo_empty redo_nonempty undo_then_redo_restores
  by blast

theorem undo_redo_contract_witness:
  "undo \<lparr>undoStack = [], redoStack = [], maxSize = 50\<rparr> ''Welcome''
     = (''Welcome'', \<lparr>undoStack = [], redoStack = [], maxSize = 50\<rparr>)
 \<and> redo \<lparr>undoStack = [], redoStack = [], maxSize = 50\<rparr> ''Welcome''
     = (''Welcome'', \<lparr>undoStack = [], redoStack = [], maxSize = 50\<rparr>)
 \<and> undo \<lparr>undoStack = [''Welcome to the Editor.''], redoStack = [], maxSize = 50\<rparr>
      ''Welcome back to the Editor.''
     = (''Welcome to the Editor.'',
        \<lparr>undoStack = [], redoStack = [''Welcome back to the Editor.''], maxSize = 50\<rparr>)
 \<and> redo \<lparr>undoStack = [], redoStack = [''Welcome back to the Editor.''], maxSize = 50\<rparr>
      ''Welcome to the Editor.''
     = (''Welcome back to the Editor.'',
        \<lparr>undoStack = [''Welcome to the Editor.''], redoStack = [], maxSize = 50\<rparr>)
 \<and> undo_then_redo \<lparr>undoStack = [''Welcome to the Editor.''], redoStack = [], maxSize = 50\<rparr>
      ''Welcome back to the Editor.''
     = (''Welcome back to the Editor.'',
        \<lparr>undoStack = [''Welcome to the Editor.''], redoStack = [], maxSize = 50\<rparr>)"
proof -
  let ?e = "\<lparr>undoStack = [], redoStack = [], maxSize = 50\<rparr>"
  let ?u = "\<lparr>undoStack = [''Welcome to the Editor.''], redoStack = [], maxSize = 50\<rparr>"
  let ?r = "\<lparr>undoStack = [], redoStack = [''Welcome back to the Editor.''], maxSize = 50\<rparr>"
  have 1: "undo ?e ''Welcome'' = (''Welcome'', ?e)"
    using undo_redo_contract[of ?e "''Welcome''"] by simp
  have 2: "redo ?e ''Welcome'' = (''Welcome'', ?e)"
    using undo_redo_contract[of ?e "''Welcome''"] by simp
  have 3: "undo ?u ''Welcome back to the Editor.'' = (''Welcome to the Editor.'', ?r)"
    using undo_redo_contract[of ?u "''Welcome back to the Editor.''"] by simp
  have 4: "redo ?r ''Welcome to the Editor.'' = (''Welcome back to the Editor.'', ?u)"
    using undo_redo_contract[of ?r "''Welcome to the Editor.''"] by simp
  have 5: "undo_then_redo ?u ''Welcome back to the Editor.''
             = (''Welcome back to the Editor.'', ?u)"
    using undo_redo_contract[of ?u "''Welcome back to the Editor.''"] by simp
  show ?thesis using 1 2 3 4 5 by blast
qed

lemma history_step_invariant:
  assumes "maxSize h = 50" and "length (undoStack h) + length (redoStack h) \<le> 50"
  shows "maxSize (history_step h c) = 50
       \<and> length (undoStack (history_step h c)) + length (redoStack (history_step h c)) \<le> 50"
proof (cases c)
  case (SaveState t)
  with assms show ?thesis by (auto simp: saveState_def Let_def)
next
  case (Undo t)
  show ?thesis
  proof (cases "undoStack h = []")
    case True
    with Undo assms show ?thesis by (simp add: undo_empty)
  next
    case False
    then obtain xs x where "undoStack h = xs @ [x]" by (cases "undoStack h" rule: rev_cases) auto
    with Undo assms show ?thesis by (simp add: undo_nonempty)
  qed
next
  case (Redo t)
  show ?thesis
  proof (cases "redoStack h = []")
    case True
    with Redo assms show ?thesis by (simp add: redo_empty)
  next
    case False
    then obtain xs x where "redoStack h = xs @ [x]" by (cases "redoStack h" rule: rev_cases) auto
    with Redo assms show ?thesis by (simp add: redo_nonempty)
  qed
qed

lemma foldl_history_step_invariant:
  assumes "maxSize h = 50" and "length (undoStack h) + length (redoStack h) \<le> 50"
  shows "maxSize (foldl history_step h cs) = 50
       \<and> length (undoStack (foldl history_step h cs))
           + length (redoStack (foldl history_step h cs)) \<le> 50"
  using assms
proof (induction cs arbitrary: h)
  case Nil
  then show ?case by simp
next
  case (Cons c cs)
  from history_step_invariant[OF Cons.prems]
  show ?case using Cons.IH[of "history_step h c"] by simp
qed

text \<open>
  C8. In every state a fresh manager reaches by a sequence of \<open>saveState\<close>, \<open>undo\<close> and
  \<open>redo\<close> calls, each stack holds at most 50 snapshots. Only \<open>saveState\<close> checks a size; the
  bound on both stacks follows from the stronger invariant that the two lengths together
  never exceed 50.
\<close>

theorem history_stacks_bounded:
  "length (undoStack (history_run calls)) \<le> 50
 \<and> length (redoStack (history_run calls)) \<le> 50
 \<and> length (undoStack (history_run calls)) + length (redoStack (history_run calls)) \<le> 50"
proof -
  have "maxSize UndoRedoManager_new = 50"
    and "length (undoStack UndoRedoManager_new) + length (redoStack UndoRedoManager_new) \<le> 50"
    by (simp_all add: UndoRedoManager_new_def)
  from foldl_history_step_invariant[OF this, of calls]
  show ?thesis by (simp add: history_run_def)
qed

theorem history_stacks_bounded_witness:
  "history_run [SaveState ''a'', SaveState ''b'', Undo ''c'', Redo ''b'', Undo ''c'']
     = \<lparr>undoStack = [''a''], redoStack = [''c''], maxSize = 50\<rparr>
 \<and> length (undoStack
      (history_run [SaveState ''a'', SaveState ''b'', Undo ''c'', Redo ''b'', Undo ''c''])) \<le> 50
 \<and> length (redoStack
      (history_run [SaveState ''a'', SaveState ''b'', Undo ''c'', Redo ''b'', Undo ''c''])) \<le> 50"
proof -
  have "history_run [SaveState ''a'', SaveState ''b'', Undo ''c'', Redo ''b'', Undo ''c'']
     = \<lparr>undoStack = [''a''], redoStack = [''c''], maxSize = 50\<rparr>"
    by (simp add: history_run_def saveState_def undo_def redo_def UndoRedoManager_new_def
        Let_def)
  then show ?thesis
    using history_stacks_bounded
      [of "[SaveState ''a'', SaveState ''b'', Undo ''c'', Redo ''b'', Undo ''c'']"]
    by blast
qed

subsection \<open>Rope\<close>

lemma Rope_toString_new [simp]: "Rope_toString (Rope_new s) = s"
  by (simp add: Rope_toString_def Rope_new_def RopeNode_new_def)

lemma Rope_toString_root_update [simp]:
  "Rope_toString (rope\<lparr>root := RopeNode_new s\<rparr>) = s"
  by (simp add: Rope_toString_def RopeNode_new_def)

lemma slice_prefix: "slice s 0 (Some i) = take (slice_index (length s) i) s"
  by (simp add: slice_def slice_index_def Let_def)

lemma slice_suffix: "slice s i None = drop (slice_index (length s) i) s"
  by (auto simp: slice_def slice_index_def Let_def)

lemma slice_index_in_range:
  "0 \<le> i \<Longrightarrow> i \<le> int len \<Longrightarrow> slice_index len i = nat i"
  by (simp add: slice_index_def)

lemma Rope_insert_eq:
  "Rope_insert rope i s =
     (take (slice_index (length (Rope_toString rope)) i) (Rope_toString rope) @ s @
      drop (slice_index (length (Rope_toString rope)) i) (Rope_toString rope),
      rope\<lparr>root := RopeNode_new
        (take (slice_index (length (Rope_toString rope)) i) (Rope_toString rope) @ s @
         drop (slice_index (length (Rope_toString rope)) i) (Rope_toString rope))\<rparr>)"
  by (simp add: Rope_insert_def Let_def slice_prefix slice_suffix)

lemma Rope_delete_eq:
  "Rope_delete rope a b =
     (take (slice_index (length (Rope_toString rope)) a) (Rope_toString rope) @
      drop (slice_index (length (Rope_toString rope)) b) (Rope_toString rope),
      rope\<lparr>root := RopeNode_new
        (take (slice_index (length (Rope_toString rope)) a) (Rope_toString rope) @
         drop (slice_index (length (Rope_toString rope)) b) (Rope_toString rope))\<rparr>)"
  by (simp add: Rope_delete_def Let_def slice_prefix slice_suffix)

lemma Rope_insert_new:
  "Rope_insert (Rope_new t) i s =
     (take (slice_index (length t) i) t @ s @ drop (slice_index (length t) i) t,
      Rope_new (take (slice_index (length t) i) t @ s @ drop (slice_index (length t) i) t))"
  by (simp add: Rope_insert_eq) (simp add: Rope_new_def)

lemma Rope_delete_new:
  "Rope_delete (Rope_new t) a b =
     (take (slice_index (length t) a) t @ drop (slice_index (length t) b) t,
      Rope_new (take (slice_index (length t) a) t @ drop (slice_index (length t) b) t))"
  by (simp add: Rope_delete_eq) (simp add: Rope_new_def)

text \<open>
  C3. For a buffer with text \<open>t\<close>: with \<open>0 \<le> offset \<le> length t\<close>, \<open>insert offset s\<close> returns
  \<open>t[0:offset] + s + t[offset:]\<close> and leaves the buffer with that text; with
  \<open>0 \<le> start \<le> end \<le> length t\<close>, \<open>delete start end\<close> returns \<open>t[0:start] + t[end:]\<close> and
  leaves the buffer with that text. The buffer may be any tree of nodes.
\<close>

theorem Rope_insert_delete_in_range:
  "(0 \<le> offset \<and> offset \<le> int (length (Rope_toString b)) \<longrightarrow>
      fst (Rope_insert b offset s)
        = take (nat offset) (Rope_toString b) @ s @ drop (nat offset) (Rope_toString b)
    \<and> Rope_toString (snd (Rope_insert b offset s))
        = take (nat offset) (Rope_toString b) @ s @ drop (nat offset) (Rope_toString b))
 \<and> (0 \<le> start \<and> start \<le> fin \<and> fin \<le> int (length (Rope_toString b)) \<longrightarrow>
      fst (Rope_delete b start fin)
        = take (nat start) (Rope_toString b) @ drop (nat fin) (Rope_toString b)
    \<and> Rope_toString (snd (Rope_delete b start fin))
        = take (nat start) (Rope_toString b) @ drop (nat fin) (Rope_toString b))"
  by (simp add: Rope_insert_eq Rope_delete_eq slice_index_in_range)

theorem Rope_insert_delete_in_range_witness:
  "Rope_toString (Rope_new ''Welcome to the Editor.'') = ''Welcome to the Editor.''
 \<and> fst (Rope_insert (Rope_new ''Welcome to the Editor.'') 8 ''back '')
      = ''Welcome back to the Editor.''
 \<and> Rope_toString (snd (Rope_insert (Rope_new ''Welcome to the Editor.'') 8 ''back ''))
      = ''Welcome back to the Editor.''
 \<and> fst (Rope_delete (Rope_new ''Welcome back to the Editor.'') 8 13)
      = ''Welcome to the Editor.''
 \<and> Rope_toString (snd (Rope_delete (Rope_new ''Welcome back to the Editor.'') 8 13))
      = ''Welcome to the Editor.''"
  using Rope_insert_delete_in_range
          [of 8 "Rope_new ''Welcome to the Editor.''" "''back ''" 0 0]
        Rope_insert_delete_in_range
          [of 0 "Rope_new ''Welcome back to the Editor.''" "[]" 8 13]
  by simp

text \<open>
  C4, as the claim states it, fails: neither method checks its offsets. \<open>insert (-1) ''x''\<close>
  on a buffer holding \<open>abc\<close> returns \<open>abxc\<close> and stores it, \<open>insert 10 ''x''\<close> appends, and
  \<open>delete 2 1\<close> (start after end) returns \<open>abbc\<close>; in each case the text has changed.
\<close>

theorem Rope_out_of_range_counterexample:
  "Rope_insert (Rope_new ''abc'') (- 1) ''x'' = (''abxc'', Rope_new ''abxc'')
 \<and> Rope_toString (snd (Rope_insert (Rope_new ''abc'') (- 1) ''x''))
      \<noteq> Rope_toString (Rope_new ''abc'')
 \<and> Rope_insert (Rope_new ''abc'') 10 ''x'' = (''abcx'', Rope_new ''abcx'')
 \<and> Rope_delete (Rope_new ''abc'') 2 1 = (''abbc'', Rope_new ''abbc'')
 \<and> Rope_toString (snd (Rope_delete (Rope_new ''abc'') 2 1))
      \<noteq> Rope_toString (Rope_new ''abc'')"
  by (simp add: Rope_insert_new Rope_delete_new slice_index_def)

text \<open>
  C4, amended. No call of \<open>insert\<close> or \<open>delete\<close> signals an error, whatever its offsets:
  each offset is clamped as \<open>slice\<close> clamps it (a negative offset counts from the end and
  is floored at 0, an offset beyond the length is the length), \<open>insert\<close> returns and stores
  \<open>t[0:k] + s + t[k:]\<close> for the clamped offset \<open>k\<close>, and \<open>delete\<close> returns and stores
  \<open>t[0:a] + t[b:]\<close> for the clamped \<open>a\<close> and \<open>b\<close>. The buffer becomes a single leaf
  holding the returned text.
\<close>

theorem Rope_insert_delete_clamped:
  "fst (Rope_insert b offset s)
     = take (slice_index (length (Rope_toString b)) offset) (Rope_toString b) @ s @
       drop (slice_index (length (Rope_toString b)) offset) (Rope_toString b)
 \<and> snd (Rope_insert b offset s) = b\<lparr>root := RopeNode_new (fst (Rope_insert b offset s))\<rparr>
 \<and> fst (Rope_delete b start fin)
     = take (slice_index (length (Rope_toString b)) start) (Rope_toString b) @
       drop (slice_index (length (Rope_toString b)) fin) (Rope_toString b)
 \<and> snd (Rope_delete b start fin) = b\<lparr>root := RopeNode_new (fst (Rope_delete b start fin))\<rparr>
 \<and> slice_index (length (Rope_toString b)) offset
     = (if offset < 0 then nat (max (int (length (Rope_toString b)) + offset) 0)
        else if offset > int (length (Rope_toString b)) then length (Rope_toString b)
        else nat offset)"
  by (simp add: Rope_insert_eq Rope_delete_eq slice_index_def)

theorem Rope_insert_delete_clamped_witness:
  "fst (Rope_insert (Rope_new ''abc'') (- 1) ''x'') = ''abxc''
 \<and> fst (Rope_insert (Rope_new ''abc'') (- 7) ''x'') = ''xabc''
 \<and> fst (Rope_insert (Rope_new ''abc'') 10 ''x'') = ''abcx''
 \<and> fst (Rope_delete (Rope_new ''abc'') (- 2) 5) = ''a''"
  using Rope_insert_delete_clamped [of "Rope_new ''abc''" "- 1" "''x''" "- 2" 5]
    Rope_insert_delete_clamped [of "Rope_new ''abc''" "- 7" "''x''" "- 2" 5]
    Rope_insert_delete_clamped [of "Rope_new ''abc''" "10" "''x''" "- 2" 5]
  by (simp add: slice_index_def)


subsection \<open>Boyer-Moore search\<close>

lemma char_at_Some_iff:
  "char_at s i = Some c \<longleftrightarrow> 0 \<le> i \<and> i < int (length s) \<and> s ! nat i = c"
  by (auto simp: char_at_def)

lemma char_at_None_iff: "char_at s i = None \<longleftrightarrow> \<not> (0 \<le> i \<and> i < int (length s))"
  by (simp add: char_at_def)

lemma badChar_prefix:
  "(foldl (\<lambda>badChar i. badChar(p ! i \<mapsto> int i)) Map.empty [0..<k] c = None
      \<longleftrightarrow> (\<forall>i<k. p ! i \<noteq> c))
 \<and> (\<forall>l. foldl (\<lambda>badChar i. badChar(p ! i \<mapsto> int i)) Map.empty [0..<k] c = Some l \<longrightarrow>
        0 \<le> l \<and> nat l < k \<and> p ! nat l = c \<and> (\<forall>j. nat l < j \<and> j < k \<longrightarrow> p ! j \<noteq> c))"
proof -
  define T where "T k = foldl (\<lambda>badChar i. badChar(p ! i \<mapsto> int i)) Map.empty [0..<k]" for k
  have T0: "T 0 = Map.empty" by (simp add: T_def)
  have TS: "T (Suc k) = (T k)(p ! k \<mapsto> int k)" for k by (simp add: T_def)
  have "(T k c = None \<longleftrightarrow> (\<forall>i<k. p ! i \<noteq> c))
      \<and> (\<forall>l. T k c = Some l \<longrightarrow>
            0 \<le> l \<and> nat l < k \<and> p ! nat l = c \<and> (\<forall>j. nat l < j \<and> j < k \<longrightarrow> p ! j \<noteq> c))"
  proof (induction k)
    case 0
    show ?case by (simp add: T0)
  next
    case (Suc k)
    show ?case
    proof (cases "p ! k = c")
      case True
      then show ?thesis by (auto simp: TS)
    next
      case False
      then have eq: "T (Suc k) c = T k c" by (simp add: TS)
      from Suc have n: "T k c = None \<longleftrightarrow> (\<forall>i<k. p ! i \<noteq> c)"
        and sm: "\<And>l. T k c = Some l \<Longrightarrow>
            0 \<le> l \<and> nat l < k \<and> p ! nat l = c \<and> (\<forall>j. nat l < j \<and> j < k \<longrightarrow> p ! j \<noteq> c)"
        by blast+
      have 1: "T k c = None \<longleftrightarrow> (\<forall>i<Suc k. p ! i \<noteq> c)"
        using n False by (auto simp: less_Suc_eq)
      have 2: "0 \<le> l \<and> nat l < Suc k \<and> p ! nat l = c
               \<and> (\<forall>j. nat l < j \<and> j < Suc k \<longrightarrow> p ! j \<noteq> c)" if "T k c = Some l" for l
        using sm[OF that] False by (auto simp: less_Suc_eq)
      show ?thesis unfolding eq using 1 2 by blast
    qed
  qed
  then show ?thesis by (simp add: T_def)
qed

lemma build_badChar_None: "build_badChar p c = None \<longleftrightarrow> c \<notin> set p"
  using badChar_prefix[where k="length p" and p=p and c=c]
  by (auto simp: build_badChar_def in_set_conv_nth)

lemma build_badChar_Some:
  assumes "build_badChar p c = Some l"
  shows "0 \<le> l" "l < int (length p)" "p ! nat l = c"
    "\<And>j. l < j \<Longrightarrow> j < int (length p) \<Longrightarrow> p ! nat j \<noteq> c"
proof -
  from badChar_prefix[where k="length p" and p=p and c=c] assms
  have *: "0 \<le> l \<and> nat l < length p \<and> p ! nat l = c
     \<and> (\<forall>j. nat l < j \<and> j < length p \<longrightarrow> p ! j \<noteq> c)"
    by (simp add: build_badChar_def)
  then show "0 \<le> l" "l < int (length p)" "p ! nat l = c" by auto
  fix j assume "l < j" "j < int (length p)"
  with * have "nat l < nat j \<and> nat j < length p" by auto
  with * show "p ! nat j \<noteq> c" by blast
qed

lemma compare_back_step:
  "j \<ge> 0 \<Longrightarrow> char_at p j = char_at t (s + j) \<Longrightarrow>
     compare_back t p s j = compare_back t p s (j - 1)"
  by (subst compare_back.simps) simp

lemma compare_back_stop:
  "\<not> (j \<ge> 0 \<and> char_at p j = char_at t (s + j)) \<Longrightarrow> compare_back t p s j = j"
  by (subst compare_back.simps) auto

lemma compare_back_le: "compare_back t p s j \<le> j"
proof (induction t p s j rule: compare_back.induct)
  case (1 t p s j)
  show ?case
  proof (cases "j \<ge> 0 \<and> char_at p j = char_at t (s + j)")
    case True
    with "1.IH" have "compare_back t p s (j - 1) \<le> j - 1" by blast
    with True show ?thesis by (simp add: compare_back_step)
  next
    case False
    then show ?thesis by (simp add: compare_back_stop)
  qed
qed

lemma compare_back_ge: "- 1 \<le> j \<Longrightarrow> - 1 \<le> compare_back t p s j"
proof (induction t p s j rule: compare_back.induct)
  case (1 t p s j)
  show ?case
  proof (cases "j \<ge> 0 \<and> char_at p j = char_at t (s + j)")
    case True
    then have "- 1 \<le> j - 1" by simp
    with "1.IH" True have "- 1 \<le> compare_back t p s (j - 1)" by blast
    with True show ?thesis by (simp add: compare_back_step)
  next
    case False
    with "1.prems" show ?thesis by (simp add: compare_back_stop)
  qed
qed

lemma compare_back_agree:
  "compare_back t p s j < k \<Longrightarrow> k \<le> j \<Longrightarrow> char_at p k = char_at t (s + k)"
proof (induction t p s j rule: compare_back.induct)
  case (1 t p s j)
  show ?case
  proof (cases "j \<ge> 0 \<and> char_at p j = char_at t (s + j)")
    case True
    then have eq: "compare_back t p s j = compare_back t p s (j - 1)"
      by (simp add: compare_back_step)
    show ?thesis
    proof (cases "k = j")
      case True
      with \<open>j \<ge> 0 \<and> char_at p j = char_at t (s + j)\<close> show ?thesis by simp
    next
      case False
      with "1.prems" have "compare_back t p s (j - 1) < k" "k \<le> j - 1"
        unfolding eq by simp_all
      with "1.IH" True show ?thesis by blast
    qed
  next
    case False
    then have "compare_back t p s j = j" by (simp add: compare_back_stop)
    with "1.prems" show ?thesis by simp
  qed
qed

lemma compare_back_differ:
  "0 \<le> compare_back t p s j \<Longrightarrow>
   char_at p (compare_back t p s j) \<noteq> char_at t (s + compare_back t p s j)"
proof (induction t p s j rule: compare_back.induct)
  case (1 t p s j)
  show ?case
  proof (cases "j \<ge> 0 \<and> char_at p j = char_at t (s + j)")
    case True
    then have eq: "compare_back t p s j = compare_back t p s (j - 1)"
      by (simp add: compare_back_step)
    from "1.prems" have "0 \<le> compare_back t p s (j - 1)" unfolding eq .
    with "1.IH" True show ?thesis unfolding eq by blast
  next
    case False
    then have eq: "compare_back t p s j = j" by (simp add: compare_back_stop)
    from "1.prems" False show ?thesis unfolding eq by blast
  qed
qed

lemma char_at_in_range:
  "0 \<le> i \<Longrightarrow> i < int (length s) \<Longrightarrow> char_at s i = Some (s ! nat i)"
  by (simp add: char_at_def)

lemma char_at_eq_SomeD:
  "char_at s i = Some c \<Longrightarrow> 0 \<le> i \<and> i < int (length s) \<and> s ! nat i = c"
  by (simp add: char_at_def split: if_splits)

lemma occurs_at_iff:
  assumes "p \<noteq> []"
  shows "occurs_at t p s \<longleftrightarrow>
     (\<forall>k. 0 \<le> k \<and> k < int (length p) \<longrightarrow> char_at p k = char_at t (s + k))"
proof
  assume o: "occurs_at t p s"
  then have s: "0 \<le> s" and tk: "take (length p) (drop (nat s) t) = p"
    by (auto simp: occurs_at_def)
  from tk have "length (take (length p) (drop (nat s) t)) = length p" by simp
  with assms have len: "nat s + length p \<le> length t" by (cases p) auto
  show "\<forall>k. 0 \<le> k \<and> k < int (length p) \<longrightarrow> char_at p k = char_at t (s + k)"
  proof (intro allI impI)
    fix k assume k: "0 \<le> k \<and> k < int (length p)"
    then have nk: "nat k < length p" by linarith
    have "p ! nat k = take (length p) (drop (nat s) t) ! nat k" using tk by simp
    also have "\<dots> = t ! (nat s + nat k)" using nk len by simp
    also have "nat s + nat k = nat (s + k)" using s k by (simp add: nat_add_distrib)
    finally have e: "p ! nat k = t ! nat (s + k)" .
    have 1: "char_at p k = Some (p ! nat k)" using k by (simp add: char_at_in_range)
    have "s + k < int (length t)" using nk len s k by linarith
    then have 2: "char_at t (s + k) = Some (t ! nat (s + k))"
      using s k by (simp add: char_at_in_range)
    show "char_at p k = char_at t (s + k)" unfolding 1 2 using e by simp
  qed
next
  assume a: "\<forall>k. 0 \<le> k \<and> k < int (length p) \<longrightarrow> char_at p k = char_at t (s + k)"
  from assms have m: "0 < int (length p)" by simp
  from a m have "char_at p 0 = char_at t (s + 0)" by blast
  moreover have "char_at p 0 = Some (p ! 0)" using m by (simp add: char_at_in_range)
  ultimately have "char_at t s = Some (p ! 0)" by simp
  then have s: "0 \<le> s" using char_at_eq_SomeD by fastforce
  have "0 \<le> int (length p) - 1 \<and> int (length p) - 1 < int (length p)" using m by simp
  with a have "char_at p (int (length p) - 1) = char_at t (s + (int (length p) - 1))"
    by blast
  moreover have "char_at p (int (length p) - 1) = Some (p ! nat (int (length p) - 1))"
    using m by (simp add: char_at_in_range)
  ultimately have "char_at t (s + (int (length p) - 1)) = Some (p ! nat (int (length p) - 1))"
    by simp
  then have "s + (int (length p) - 1) < int (length t)" using char_at_eq_SomeD by fastforce
  with s have len: "nat s + length p \<le> length t" by linarith
  have "take (length p) (drop (nat s) t) = p"
  proof (rule nth_equalityI)
    show "length (take (length p) (drop (nat s) t)) = length p" using len by simp
  next
    fix i assume "i < length (take (length p) (drop (nat s) t))"
    then have i: "i < length p" by simp
    with a have "char_at p (int i) = char_at t (s + int i)" by simp
    moreover have "char_at p (int i) = Some (p ! i)" using i by (simp add: char_at_in_range)
    moreover have "char_at t (s + int i) = Some (t ! nat (s + int i))"
      using i s len by (simp add: char_at_in_range)
    moreover have "nat (s + int i) = nat s + i" using s by (simp add: nat_add_distrib)
    ultimately have "p ! i = t ! (nat s + i)" by simp
    then show "take (length p) (drop (nat s) t) ! i = p ! i" using i len by simp
  qed
  with s show "occurs_at t p s" by (simp add: occurs_at_def)
qed

lemma occurs_at_bounds:
  assumes "p \<noteq> []" "occurs_at t p s"
  shows "0 \<le> s" "s + int (length p) \<le> int (length t)"
proof -
  from assms show s: "0 \<le> s" by (simp add: occurs_at_def)
  from assms have "length (take (length p) (drop (nat s) t)) = length p"
    by (simp add: occurs_at_def)
  with assms have "nat s + length p \<le> length t" by (cases p) auto
  with s show "s + int (length p) \<le> int (length t)" by linarith
qed

lemma compare_back_match:
  assumes "p \<noteq> []"
  shows "compare_back t p s (int (length p) - 1) < 0 \<longleftrightarrow> occurs_at t p s"
proof -
  let ?j = "compare_back t p s (int (length p) - 1)"
  from assms have j0: "- 1 \<le> int (length p) - 1" by simp
  show ?thesis
  proof
    assume neg: "?j < 0"
    have "char_at p k = char_at t (s + k)" if "0 \<le> k \<and> k < int (length p)" for k
      by (rule compare_back_agree[where j="int (length p) - 1"]) (use neg that in linarith)+
    then show "occurs_at t p s" using occurs_at_iff[OF assms] by blast
  next
    assume "occurs_at t p s"
    then have a: "\<And>k. 0 \<le> k \<and> k < int (length p) \<Longrightarrow> char_at p k = char_at t (s + k)"
      using occurs_at_iff[OF assms] by blast
    show "?j < 0"
    proof (rule ccontr)
      assume "\<not> ?j < 0"
      then have 0: "0 \<le> ?j" by simp
      moreover have "?j < int (length p)"
        using compare_back_le[of t p s "int (length p) - 1"] by linarith
      ultimately have "char_at p ?j = char_at t (s + ?j)" using a by blast
      with compare_back_differ[OF 0] show False by blast
    qed
  qed
qed


lemma mismatch_shift_safe:
  assumes ne: "p \<noteq> []"
    and s: "s < s'" "s' < s + mismatch_shift (build_badChar p) t s j"
    and j: "0 \<le> j" "j < int (length p)"
  shows "\<not> occurs_at t p s'"
proof
  assume o: "occurs_at t p s'"
  define l where "l = (case badChar_at (build_badChar p) t (s + j) of Some i \<Rightarrow> i | None \<Rightarrow> - 1)"
  have sh: "mismatch_shift (build_badChar p) t s j = max 1 (j - l)"
    by (simp add: mismatch_shift_def l_def)
  define k where "k = j - (s' - s)"
  from s sh have kl: "l < k" and kj: "k < j" unfolding k_def by linarith+
  have l: "- 1 \<le> l"
  proof (cases "badChar_at (build_badChar p) t (s + j)")
    case None
    then show ?thesis by (simp add: l_def)
  next
    case (Some i)
    then obtain c where "build_badChar p c = Some i"
      by (auto simp: badChar_at_def split: option.splits)
    from build_badChar_Some(1)[OF this] Some show ?thesis by (simp add: l_def)
  qed
  with kl kj j have k: "0 \<le> k \<and> k < int (length p)" by linarith
  with o occurs_at_iff[OF ne, of t s'] have "char_at p k = char_at t (s' + k)" by blast
  moreover have "s' + k = s + j" by (simp add: k_def)
  moreover have "char_at p k = Some (p ! nat k)" using k by (simp add: char_at_in_range)
  ultimately have ch: "char_at t (s + j) = Some (p ! nat k)" by simp
  then have b: "badChar_at (build_badChar p) t (s + j) = build_badChar p (p ! nat k)"
    by (simp add: badChar_at_def)
  have "nat k < length p" using k by linarith
  then have "p ! nat k \<in> set p" by simp
  then obtain i where i: "build_badChar p (p ! nat k) = Some i"
    using build_badChar_None[of p "p ! nat k"] by (cases "build_badChar p (p ! nat k)") auto
  with b have "l = i" by (simp add: l_def)
  with kl k build_badChar_Some(4)[OF i, of k] show False by simp
qed

lemma match_shift_safe:
  assumes ne: "p \<noteq> []"
    and s: "s < s'" "s' < s + match_shift (build_badChar p) t (int (length p)) (int (length t)) s"
  shows "\<not> occurs_at t p s'"
proof
  assume o: "occurs_at t p s'"
  let ?m = "int (length p)"
  from s have pos: "1 < match_shift (build_badChar p) t ?m (int (length t)) s" by linarith
  then have lt: "s + ?m < int (length t)"
    by (simp add: match_shift_def split: if_splits)
  from pos lt obtain i where i: "badChar_at (build_badChar p) t (s + ?m) = Some i"
    by (cases "badChar_at (build_badChar p) t (s + ?m)") (auto simp: match_shift_def)
  with lt have sh: "match_shift (build_badChar p) t ?m (int (length t)) s
                    = (if ?m - i = 0 then - 1 else ?m - i)"
    by (simp add: match_shift_def)
  with pos have sh': "match_shift (build_badChar p) t ?m (int (length t)) s = ?m - i"
    by (simp split: if_splits)
  from i obtain c where c: "char_at t (s + ?m) = Some c" and bc: "build_badChar p c = Some i"
    by (auto simp: badChar_at_def split: option.splits)
  define k where "k = ?m - (s' - s)"
  from s sh' have ki: "i < k" and km: "k < ?m" unfolding k_def by linarith+
  from build_badChar_Some(1)[OF bc] ki km have k: "0 \<le> k \<and> k < ?m" by linarith
  with o occurs_at_iff[OF ne, of t s'] have "char_at p k = char_at t (s' + k)" by blast
  moreover have "s' + k = s + ?m" by (simp add: k_def)
  moreover have "char_at p k = Some (p ! nat k)" using k by (simp add: char_at_in_range)
  ultimately have "p ! nat k = c" using c by simp
  with build_badChar_Some(4)[OF bc ki km] show False by simp
qed

lemma search_loop_never_returns:
  assumes ne: "p \<noteq> []" and o: "occurs_at t p i0"
    and lt: "i0 + int (length p) < int (length t)"
    and c: "t ! nat (i0 + int (length p)) \<notin> set p"
    and s: "s \<le> i0"
  shows "search_loop t p (build_badChar p) s results = None"
proof -
  let ?m = "int (length p)" and ?n = "int (length t)" and ?bc = "build_badChar p"
  have i0: "0 \<le> i0" using o by (simp add: occurs_at_def)
  have "char_at t (i0 + ?m) = Some (t ! nat (i0 + ?m))"
    using i0 lt by (simp add: char_at_in_range)
  moreover have "?bc (t ! nat (i0 + ?m)) = None" using c by (simp add: build_badChar_None)
  ultimately have "badChar_at ?bc t (i0 + ?m) = None" by (simp add: badChar_at_def)
  with lt have bshift: "match_shift ?bc t ?m ?n i0 = - 1" by (simp add: match_shift_def)
  have inv: "\<not> (t' = t \<and> p' = p \<and> bc' = ?bc \<and> s \<le> i0)"
    if "search_loop t' p' bc' s results = Some y" for t' p' bc' s results y
  proof (rule search_loop.raw_induct
      [where P = "\<lambda>t' p' bc' s results y. \<not> (t' = t \<and> p' = p \<and> bc' = ?bc \<and> s \<le> i0)",
        OF _ that], goal_cases)
    case (1 f t' p' bc' s results y)
    show ?case
    proof
      assume A: "t' = t \<and> p' = p \<and> bc' = ?bc \<and> s \<le> i0"
      then have le: "s \<le> ?n - ?m" using lt by linarith
      let ?j = "compare_back t p s (?m - 1)"
      show False
      proof (cases "?j < 0")
        case True
        define d where "d = match_shift ?bc t ?m ?n s"
        have "s + d \<le> i0"
        proof (cases "s = i0")
          case True
          then show ?thesis using bshift by (simp add: d_def)
        next
          case False
          with A have "s < i0" by simp
          with match_shift_safe[OF ne, of s i0 t] o show ?thesis
            unfolding d_def by force
        qed
        moreover from "1"(2) A le True have "f t p ?bc (s + d) (results @ [s]) = Some y"
          by (simp add: Let_def d_def)
        ultimately show False using "1"(1) by blast
      next
        case False
        define d where "d = mismatch_shift ?bc t s ?j"
        from False have j: "0 \<le> ?j" by simp
        have j': "?j < ?m" using compare_back_le[of t p s "?m - 1"] by linarith
        from False have "\<not> occurs_at t p s" using compare_back_match[OF ne, of t s] by blast
        with o A have "s < i0" by (cases "s = i0") auto
        with mismatch_shift_safe[OF ne _ _ j j', of s i0 t] o have "s + d \<le> i0"
          unfolding d_def by force
        moreover from "1"(2) A le False have "f t p ?bc (s + d) results = Some y"
          by (simp add: Let_def d_def)
        ultimately show False using "1"(1) by blast
      qed
    qed
  qed
  show ?thesis
  proof (cases "search_loop t p ?bc s results")
    case None
    then show ?thesis .
  next
    case (Some y)
    from inv[OF Some] s show ?thesis by simp
  qed
qed


lemma filter_upto_skip:
  assumes "s \<le> s'" and "\<And>k. s \<le> k \<Longrightarrow> k < s' \<Longrightarrow> \<not> P k"
  shows "filter P [s..e] = filter P [s'..e]"
proof (cases "s' \<le> e")
  case True
  have "[s..e] = [s..s' - 1] @ [s'..e]" using assms(1) True by (rule upto_split1)
  moreover have "filter P [s..s' - 1] = []" using assms(2) by (auto simp: filter_empty_conv)
  ultimately show ?thesis by simp
next
  case False
  then have "[s'..e] = []" by simp
  moreover have "filter P [s..e] = []" using assms(2) False by (auto simp: filter_empty_conv)
  ultimately show ?thesis by simp
qed

lemma search_loop_returns:
  assumes ne: "p \<noteq> []"
    and good: "\<And>i. occurs_at t p i \<Longrightarrow> i + int (length p) < int (length t) \<Longrightarrow>
                 t ! nat (i + int (length p)) \<in> set p"
  shows "search_loop t p (build_badChar p) s results
         = Some (results @ filter (occurs_at t p) [s..int (length t) - int (length p)])"
proof (induction "nat (int (length t) - int (length p) - s + 1)" arbitrary: s results
    rule: less_induct)
  case less
  let ?m = "int (length p)" and ?n = "int (length t)" and ?bc = "build_badChar p"
  let ?e = "?n - ?m"
  show ?case
  proof (cases "s \<le> ?e")
    case False
    then have "[s..?e] = []" by simp
    with False show ?thesis by (subst search_loop.simps) (simp add: Let_def)
  next
    case True
    let ?j = "compare_back t p s (?m - 1)"
    have up: "[s..?e] = s # [s + 1..?e]" using True by (rule upto_rec1)
    show ?thesis
    proof (cases "?j < 0")
      case neg: True
      then have o: "occurs_at t p s" using compare_back_match[OF ne, of t s] by blast
      define d where "d = match_shift ?bc t ?m ?n s"
      have d1: "1 \<le> d"
      proof (cases "s + ?m < ?n")
        case lt: True
        from good[OF o lt] obtain i where i: "?bc (t ! nat (s + ?m)) = Some i"
          using build_badChar_None[of p "t ! nat (s + ?m)"]
          by (cases "?bc (t ! nat (s + ?m))") auto
        have "0 \<le> s" using o by (simp add: occurs_at_def)
        with lt have "char_at t (s + ?m) = Some (t ! nat (s + ?m))"
          by (simp add: char_at_in_range)
        with i have "badChar_at ?bc t (s + ?m) = Some i" by (simp add: badChar_at_def)
        with lt build_badChar_Some(2)[OF i] show ?thesis
          by (simp add: d_def match_shift_def)
      next
        case False
        then show ?thesis by (simp add: d_def match_shift_def)
      qed
      have IH: "search_loop t p ?bc (s + d) (results @ [s])
                = Some ((results @ [s]) @ filter (occurs_at t p) [s + d..?e])"
        by (rule less) (use d1 True in linarith)
      have skip: "filter (occurs_at t p) [s + 1..?e] = filter (occurs_at t p) [s + d..?e]"
      proof (rule filter_upto_skip)
        show "s + 1 \<le> s + d" using d1 by simp
      next
        fix k assume "s + 1 \<le> k" "k < s + d"
        then show "\<not> occurs_at t p k"
          using match_shift_safe[OF ne, of s k t] by (simp add: d_def)
      qed
      have "search_loop t p ?bc s results = search_loop t p ?bc (s + d) (results @ [s])"
        by (subst search_loop.simps) (use True neg in \<open>simp add: Let_def d_def\<close>)
      then show ?thesis by (simp add: IH up o skip)
    next
      case nonneg: False
      then have no: "\<not> occurs_at t p s" using compare_back_match[OF ne, of t s] by blast
      define d where "d = mismatch_shift ?bc t s ?j"
      have d1: "1 \<le> d" by (simp add: d_def mismatch_shift_def)
      from nonneg have j: "0 \<le> ?j" by simp
      have j': "?j < ?m" using compare_back_le[of t p s "?m - 1"] by linarith
      have IH: "search_loop t p ?bc (s + d) results
                = Some (results @ filter (occurs_at t p) [s + d..?e])"
        by (rule less) (use d1 True in linarith)
      have skip: "filter (occurs_at t p) [s + 1..?e] = filter (occurs_at t p) [s + d..?e]"
      proof (rule filter_upto_skip)
        show "s + 1 \<le> s + d" using d1 by simp
      next
        fix k assume "s + 1 \<le> k" "k < s + d"
        then show "\<not> occurs_at t p k"
          using mismatch_shift_safe[OF ne _ _ j j', of s k t] by (simp add: d_def)
      qed
      have "search_loop t p ?bc s results = search_loop t p ?bc (s + d) results"
        by (subst search_loop.simps) (use True nonneg in \<open>simp add: Let_def d_def\<close>)
      then show ?thesis by (simp add: IH up no skip)
    qed
  qed
qed

lemma sorted_filter_upto: "sorted_wrt (<) (filter P [i..j])"
proof -
  have "sorted_wrt (<) [i..j]" by (simp add: sorted_wrt_iff_nth_less) 
  then show ?thesis by (rule sorted_wrt_filter)
qed


text \<open>
  When no occurrence of the pattern is directly followed by a character that the pattern
  does not contain, the search returns, and what it returns is the ascending list of all
  occurrences.
\<close>

lemma boyerMooreSearch_returns:
  assumes "p \<noteq> []"
    and "\<And>i. occurs_at t p i \<Longrightarrow> i + int (length p) < int (length t) \<Longrightarrow>
            t ! nat (i + int (length p)) \<in> set p"
  shows "boyerMooreSearch t p
         = Some (filter (occurs_at t p) [0..int (length t) - int (length p)])"
    and "set (filter (occurs_at t p) [0..int (length t) - int (length p)])
         = {i. occurs_at t p i}"
    and "sorted_wrt (<) (filter (occurs_at t p) [0..int (length t) - int (length p)])"
proof -
  show "boyerMooreSearch t p
         = Some (filter (occurs_at t p) [0..int (length t) - int (length p)])"
    using search_loop_returns[OF assms, of 0 "[]"] assms(1)
    by (simp add: boyerMooreSearch_def)
  show "set (filter (occurs_at t p) [0..int (length t) - int (length p)])
         = {i. occurs_at t p i}"
  proof -
    have "0 \<le> i \<and> i \<le> int (length t) - int (length p)" if "occurs_at t p i" for i
      using occurs_at_bounds[OF assms(1) that] by linarith
    then show ?thesis by auto
  qed
  show "sorted_wrt (<) (filter (occurs_at t p) [0..int (length t) - int (length p)])"
    by (rule sorted_filter_upto)
qed

text \<open>
  When some occurrence of the pattern is directly followed by a character that the pattern
  does not contain, the shift computed after that match is \<open>-1\<close>, the scan comes back to
  the same occurrence again and again, and the search never returns.
\<close>

lemma boyerMooreSearch_diverges:
  assumes "p \<noteq> []" and "occurs_at t p i"
    and "i + int (length p) < int (length t)"
    and "t ! nat (i + int (length p)) \<notin> set p"
  shows "boyerMooreSearch t p = None"
proof -
  have "0 \<le> i" using assms(2) by (simp add: occurs_at_def)
  from search_loop_never_returns[OF assms this, of "[]"] assms(1)
  show ?thesis by (simp add: boyerMooreSearch_def)
qed

lemma boyerMooreSearch_empty_pattern: "boyerMooreSearch t [] = Some []"
  by (simp add: boyerMooreSearch_def)

text \<open>
  C1 asks that the search return exactly the occurrences of the pattern, in ascending
  order, for every text and pattern. The code does not: the pattern \<open>a\<close> occurs in the text
  \<open>ab\<close> at offset 0, the character after that occurrence is not in the pattern, and the
  search never returns (the result the claim asks for is \<open>[0]\<close>).
\<close>

theorem boyerMooreSearch_misses_occurrence:
  "occurs_at ''ab'' ''a'' 0 \<and> boyerMooreSearch ''ab'' ''a'' = None"
proof -
  have o: "occurs_at ''ab'' ''a'' 0" by (simp add: occurs_at_def)
  have "boyerMooreSearch ''ab'' ''a'' = None"
    by (rule boyerMooreSearch_diverges[OF _ o]) simp_all
  with o show ?thesis by simp
qed

text \<open>
  C2 asks that the shift grow on every outer iteration, so that the search terminates. The
  code does not: on the text \<open>abx\<close> and the pattern \<open>ab\<close> the scan matches at \<open>s = 0\<close>, the
  shift after the match is \<open>-1\<close>, at \<open>s = -1\<close> the comparison fails at \<open>j = 1\<close> with shift
  \<open>1\<close>, which leads back to \<open>s = 0\<close>; the search never returns.
\<close>

theorem boyerMooreSearch_shift_goes_back:
  "compare_back ''abx'' ''ab'' 0 1 = - 1
 \<and> match_shift (build_badChar ''ab'') ''abx'' 2 3 0 = - 1
 \<and> compare_back ''abx'' ''ab'' (- 1) 1 = 1
 \<and> mismatch_shift (build_badChar ''ab'') ''abx'' (- 1) 1 = 1
 \<and> boyerMooreSearch ''abx'' ''ab'' = None"
proof -
  have o: "occurs_at ''abx'' ''ab'' 0" by (simp add: occurs_at_def)
  have 1: "boyerMooreSearch ''abx'' ''ab'' = None"
    by (rule boyerMooreSearch_diverges[OF _ o]) simp_all
  have 2: "compare_back ''abx'' ''ab'' 0 1 = - 1"
    by (simp add: compare_back.simps char_at_def)
  have 3: "match_shift (build_badChar ''ab'') ''abx'' 2 3 0 = - 1"
    by (simp add: match_shift_def badChar_at_def char_at_def build_badChar_def)
  have 4: "compare_back ''abx'' ''ab'' (- 1) 1 = 1"
    by (simp add: compare_back.simps char_at_def)
  have 5: "mismatch_shift (build_badChar ''ab'') ''abx'' (- 1) 1 = 1"
    by (simp add: mismatch_shift_def badChar_at_def char_at_def build_badChar_def)
  from 1 2 3 4 5 show ?thesis by blast
qed

text \<open>The scenario of the specification: every match there is followed by a character of
  the pattern or by the end of the text.\<close>

lemma boyerMooreSearch_scenario: "boyerMooreSearch ''abcabcabc'' ''abc'' = Some [0, 3, 6]"
  by (simp add: boyerMooreSearch_def search_loop.simps[of "''abcabcabc''"] compare_back.simps
        char_at_def match_shift_def mismatch_shift_def badChar_at_def build_badChar_def Let_def)


subsection \<open>Trie\<close>

lemma findAllWords_length: "length (findAllWords cap node pfx) \<le> cap"
  by (cases node) simp

lemma findAllWords_cases:
  assumes "w \<in> set (findAllWords cap (TrieNode kids e) pfx)"
  shows "(e \<and> w = pfx)
       \<or> (\<exists>c child. (c, child) \<in> set kids \<and> w \<in> set (findAllWords cap child (pfx @ [c])))"
proof -
  let ?all = "(if e then [pfx] else []) @
       concat (map (\<lambda>(c, child). findAllWords cap child (pfx @ [c])) kids)"
  have "findAllWords cap (TrieNode kids e) pfx = take cap ?all" by (simp only: findAllWords.simps)
  with assms have "w \<in> set (take cap ?all)" by simp
  then have "w \<in> set ?all" by (rule in_set_takeD)
  then show ?thesis by (auto split: if_splits)
qed

lemma findAllWords_prefix:
  "w \<in> set (findAllWords cap node pfx) \<Longrightarrow> prefix pfx w"
proof (induction cap node pfx arbitrary: w rule: findAllWords.induct)
  case (1 cap kids e pfx)
  from "1.prems" have "w = pfx
     \<or> (\<exists>c child. (c, child) \<in> set kids \<and> w \<in> set (findAllWords cap child (pfx @ [c])))"
    by (rule findAllWords_cases[THEN disjE]) auto
  then consider "w = pfx"
    | c child where "(c, child) \<in> set kids" "w \<in> set (findAllWords cap child (pfx @ [c]))"
    by blast
  then show ?case
  proof cases
    case 1
    then show ?thesis by simp
  next
    case (2 c child)
    from "1.IH"[OF 2(1) refl 2(2)] have "prefix (pfx @ [c]) w" .
    then show ?thesis by (rule append_prefixD)
  qed
qed

lemma findAllWords_holds:
  "unique_keys node \<Longrightarrow> w \<in> set (findAllWords cap node pfx) \<Longrightarrow>
   \<exists>r. w = pfx @ r \<and> holds_word node r"
proof (induction cap node pfx arbitrary: w rule: findAllWords.induct)
  case (1 cap kids e pfx)
  from findAllWords_cases[OF "1.prems"(2)] consider "e" "w = pfx"
    | c child where "(c, child) \<in> set kids" "w \<in> set (findAllWords cap child (pfx @ [c]))"
    by blast
  then show ?case
  proof cases
    case 1
    then have "w = pfx @ [] \<and> holds_word (TrieNode kids e) []" by (simp add: holds_word_def)
    then show ?thesis by blast
  next
    case (2 c child)
    from "1.prems"(1) 2(1) have u: "unique_keys child" and d: "distinct (map fst kids)"
      by auto
    from "1.IH"[OF 2(1) refl u 2(2)] obtain r where r: "w = (pfx @ [c]) @ r" "holds_word child r"
      by blast
    from d 2(1) have "map_of kids c = Some child" by simp
    with r(2) have "holds_word (TrieNode kids e) (c # r)" by (simp add: holds_word_def)
    with r(1) show ?thesis by auto
  qed
qed

lemma map_of_replace:
  "map_of (map (\<lambda>(k', v'). if k' = k then (k', v) else (k', v')) props) x
   = (if x = k then map_option (\<lambda>_. v) (map_of props k) else map_of props x)"
  by (induction props) auto

lemma map_fst_replace:
  "map (fst \<circ> (\<lambda>(k', v'). if k' = k then (k', v) else (k', v'))) props = map fst props"
  by (induction props) auto

lemma map_of_insert_between:
  assumes "k \<notin> fst ` set (xs @ ys)"
  shows "map_of (xs @ [(k, v)] @ ys) = (map_of (xs @ ys))(k \<mapsto> v)"
proof
  fix x
  from assms have "map_of xs k = None" by (simp add: map_of_eq_None_iff image_Un)
  then show "map_of (xs @ [(k, v)] @ ys) x = ((map_of (xs @ ys))(k \<mapsto> v)) x"
    by (auto simp: map_add_def split: option.splits)
qed

lemma distinct_insert_between:
  assumes "distinct (map fst (xs @ ys))" and "k \<notin> fst ` set (xs @ ys)"
  shows "distinct (map fst (xs @ [(k, v)] @ ys))"
  using assms by (auto simp: image_Un)

lemma map_of_set_property:
  "map_of (set_property props k v) = (map_of props)(k \<mapsto> v)"
proof (cases "k \<in> fst ` set props")
  case True
  then have eq: "set_property props k v
             = map (\<lambda>(k', v'). if k' = k then (k', v) else (k', v')) props"
    by (simp add: set_property_def)
  from True obtain y where "map_of props k = Some y"
    by (cases "map_of props k") (auto simp: map_of_eq_None_iff)
  then show ?thesis unfolding eq by (auto simp: map_of_replace)
next
  case False
  let ?P = "\<lambda>(k', v'). is_index_key k' \<and> (of_char k' :: nat) < of_char k"
  from False have "k \<notin> fst ` set (takeWhile ?P props @ dropWhile ?P props)" by simp
  from map_of_insert_between[OF this, of v]
  have "map_of (takeWhile ?P props @ [(k, v)] @ dropWhile ?P props) = (map_of props)(k \<mapsto> v)"
    by simp
  moreover from False have "k \<notin> fst ` set (props @ [])" by simp
  from map_of_insert_between[OF this, of v]
  have "map_of (props @ [(k, v)]) = (map_of props)(k \<mapsto> v)" by simp
  ultimately show ?thesis using False by (simp add: set_property_def)
qed

lemma keys_set_property:
  assumes d: "distinct (map fst props)"
  shows "distinct (map fst (set_property props k v))"
proof (cases "k \<in> fst ` set props")
  case True
  then have "set_property props k v
             = map (\<lambda>(k', v'). if k' = k then (k', v) else (k', v')) props"
    by (simp add: set_property_def)
  with d show ?thesis by (simp add: map_fst_replace)
next
  case False
  let ?P = "\<lambda>(k', v'). is_index_key k' \<and> (of_char k' :: nat) < of_char k"
  from d have 1: "distinct (map fst (takeWhile ?P props @ dropWhile ?P props))" by simp
  from False have 2: "k \<notin> fst ` set (takeWhile ?P props @ dropWhile ?P props)" by simp
  from d have 3: "distinct (map fst (props @ []))" by simp
  from False have 4: "k \<notin> fst ` set (props @ [])" by simp
  from distinct_insert_between[OF 1 2, of v] distinct_insert_between[OF 3 4, of v] False
  show ?thesis by (simp add: set_property_def)
qed

lemma values_set_property:
  "(k', v') \<in> set (set_property props k v) \<Longrightarrow> v' = v \<or> (k', v') \<in> set props"
proof (cases "k \<in> fst ` set props")
  case True
  assume "(k', v') \<in> set (set_property props k v)"
  with True show ?thesis by (auto simp: set_property_def split: if_splits)
next
  case False
  assume a: "(k', v') \<in> set (set_property props k v)"
  let ?P = "\<lambda>(k', v'). is_index_key k' \<and> (of_char k' :: nat) < of_char k"
  have "set (takeWhile ?P props) \<union> set (dropWhile ?P props) = set props"
    by (metis set_append takeWhile_dropWhile_id)
  with a False show ?thesis by (auto simp: set_property_def split: if_splits)
qed


lemma holds_word_Nil: "holds_word node [] = isEndOfWord node"
  by (simp add: holds_word_def)

lemma holds_word_Cons:
  "holds_word node (c # cs)
   = (case map_of (children node) c of None \<Rightarrow> False | Some n \<Rightarrow> holds_word n cs)"
  by (simp add: holds_word_def split: option.splits)

lemma holds_word_new: "\<not> holds_word TrieNode_new v"
  by (cases v) (simp_all add: holds_word_Nil holds_word_Cons TrieNode_new_def)

lemma holds_word_insert_from:
  "holds_word (insert_from node w) v \<longleftrightarrow> v = w \<or> holds_word node v"
proof (induction w arbitrary: node v)
  case Nil
  show ?case by (cases v) (simp_all add: holds_word_Nil holds_word_Cons)
next
  case (Cons c cs)
  show ?case
  proof (cases v)
    case Nil
    then show ?thesis by (simp add: holds_word_Nil Let_def)
  next
    case (Cons c' cs')
    show ?thesis
    proof (cases "c' = c")
      case False
      with Cons show ?thesis by (simp add: holds_word_Cons Let_def map_of_set_property)
    next
      case True
      show ?thesis
      proof (cases "map_of (children node) c")
        case None
        with True Cons Cons.IH[of TrieNode_new cs'] show ?thesis
          by (simp add: holds_word_Cons Let_def map_of_set_property holds_word_new)
      next
        case (Some n)
        with True Cons Cons.IH[of n cs'] show ?thesis
          by (simp add: holds_word_Cons Let_def map_of_set_property)
      qed
    qed
  qed
qed

lemma unique_keys_children:
  "unique_keys node \<longleftrightarrow>
     distinct (map fst (children node)) \<and> (\<forall>(c, child) \<in> set (children node). unique_keys child)"
  by (cases node) simp

lemma unique_keys_new: "unique_keys TrieNode_new"
  by (simp add: TrieNode_new_def)

lemma unique_keys_insert_from:
  "unique_keys node \<Longrightarrow> unique_keys (insert_from node w)"
proof (induction w arbitrary: node)
  case Nil
  then show ?case by (cases node) simp
next
  case (Cons c cs)
  define child where
    "child = (case map_of (children node) c of None \<Rightarrow> TrieNode_new | Some n \<Rightarrow> n)"
  from Cons.prems have d: "distinct (map fst (children node))"
    and ch: "\<And>k n. (k, n) \<in> set (children node) \<Longrightarrow> unique_keys n"
    by (auto simp: unique_keys_children[of node])
  have "unique_keys child"
  proof (cases "map_of (children node) c")
    case None
    then show ?thesis by (simp add: child_def unique_keys_new)
  next
    case (Some n)
    then have "(c, n) \<in> set (children node)" by (rule map_of_SomeD)
    with ch Some show ?thesis by (simp add: child_def)
  qed
  then have x: "unique_keys (insert_from child cs)" by (rule Cons.IH)
  have "unique_keys n"
    if "(k, n) \<in> set (set_property (children node) c (insert_from child cs))" for k n
    using values_set_property[OF that] x ch by blast
  moreover have "distinct (map fst (set_property (children node) c (insert_from child cs)))"
    using d by (rule keys_set_property)
  moreover have "insert_from node (c # cs)
        = TrieNode (set_property (children node) c (insert_from child cs)) (isEndOfWord node)"
    by (simp add: Let_def child_def)
  ultimately show ?case by auto
qed

lemma holds_word_foldl_insert:
  "holds_word (foldl Trie_insert node ws) v \<longleftrightarrow> v \<in> toLowerCase ` set ws \<or> holds_word node v"
  by (induction ws arbitrary: node) (auto simp: Trie_insert_def holds_word_insert_from)

lemma unique_keys_foldl_insert:
  "unique_keys node \<Longrightarrow> unique_keys (foldl Trie_insert node ws)"
  by (induction ws arbitrary: node) (auto simp: Trie_insert_def unique_keys_insert_from)

lemma holds_word_Trie_of: "holds_word (Trie_of ws) v \<longleftrightarrow> v \<in> toLowerCase ` set ws"
  by (simp add: Trie_of_def holds_word_foldl_insert holds_word_new)

lemma unique_keys_Trie_of: "unique_keys (Trie_of ws)"
  by (simp add: Trie_of_def unique_keys_foldl_insert unique_keys_new)


lemma walk_append:
  "walk node (xs @ ys) = (case walk node xs of None \<Rightarrow> None | Some n \<Rightarrow> walk n ys)"
  by (induction xs arbitrary: node) (auto split: option.splits)

lemma unique_keys_walk:
  "unique_keys node \<Longrightarrow> walk node xs = Some n \<Longrightarrow> unique_keys n"
proof (induction xs arbitrary: node)
  case Nil
  then show ?case by simp
next
  case (Cons c cs)
  from Cons.prems(2) obtain m where m: "map_of (children node) c = Some m" "walk m cs = Some n"
    by (auto split: option.splits)
  from m(1) have "(c, m) \<in> set (children node)" by (rule map_of_SomeD)
  with Cons.prems(1) have "unique_keys m" by (auto simp: unique_keys_children[of node])
  then show ?case using m(2) by (rule Cons.IH)
qed

lemma lower_char_idem: "lower_char (lower_char c) = lower_char c"
proof (cases "(65 \<le> (of_char c :: nat) \<and> (of_char c :: nat) \<le> 90)
            \<or> (192 \<le> (of_char c :: nat) \<and> (of_char c :: nat) \<le> 222 \<and> (of_char c :: nat) \<noteq> 215)")
  case False
  then have "lower_char c = c" unfolding lower_char_def Let_def by (simp only: if_False)
  then show ?thesis by simp
next
  case True
  define n where "n = (of_char c :: nat)"
  from True have up: "(65 \<le> n \<and> n \<le> 90) \<or> (192 \<le> n \<and> n \<le> 222 \<and> n \<noteq> 215)"
    by (simp add: n_def)
  then have l: "lower_char c = char_of (n + 32)"
    unfolding lower_char_def Let_def n_def by (simp only: if_True)
  from up have "n + 32 < 256" by linarith
  then have "(n + 32) mod 256 = n + 32" by simp
  then have o: "(of_char (char_of (n + 32) :: char) :: nat) = n + 32" by simp
  from up have "\<not> ((65 \<le> n + 32 \<and> n + 32 \<le> 90)
                \<or> (192 \<le> n + 32 \<and> n + 32 \<le> 222 \<and> n + 32 \<noteq> 215))" by linarith
  then have "lower_char (char_of (n + 32)) = char_of (n + 32)"
    unfolding lower_char_def Let_def o by (simp only: if_False)
  with l show ?thesis by simp
qed

lemma toLowerCase_idem: "toLowerCase (toLowerCase s) = toLowerCase s"
  by (simp add: toLowerCase_def lower_char_idem)

lemma toLowerCase_append: "toLowerCase (xs @ ys) = toLowerCase xs @ toLowerCase ys"
  by (simp add: toLowerCase_def)

lemma find_capped_length: "length (find_capped cap node p) \<le> cap"
  by (simp add: find_capped_def Let_def findAllWords_length split: option.splits)

lemma find_capped_prefix:
  assumes "w \<in> set (find_capped cap node p)"
  shows "prefix (toLowerCase p) w" and "prefix (toLowerCase p) (toLowerCase w)"
proof -
  from assms obtain n where "w \<in> set (findAllWords cap n (toLowerCase p))"
    by (auto simp: find_capped_def Let_def split: option.splits)
  then show 1: "prefix (toLowerCase p) w" by (rule findAllWords_prefix)
  then obtain r where "w = toLowerCase p @ r" by (auto simp: prefix_def)
  then have "toLowerCase w = toLowerCase p @ toLowerCase r"
    by (simp add: toLowerCase_append toLowerCase_idem)
  then show "prefix (toLowerCase p) (toLowerCase w)" by simp
qed

lemma find_capped_holds:
  assumes "unique_keys node" and "w \<in> set (find_capped cap node p)"
  shows "holds_word node w"
proof -
  obtain n where n: "walk node (toLowerCase p) = Some n"
    and w: "w \<in> set (findAllWords cap n (toLowerCase p))"
  proof (cases "walk node (toLowerCase p)")
    case None
    with assms(2) show ?thesis by (simp add: find_capped_def Let_def)
  next
    case (Some n)
    with assms(2) that show ?thesis by (simp add: find_capped_def Let_def)
  qed
  from unique_keys_walk[OF assms(1) n] have "unique_keys n" .
  from findAllWords_holds[OF this w] obtain r where r: "w = toLowerCase p @ r" "holds_word n r"
    by blast
  with n show ?thesis by (simp add: holds_word_def walk_append)
qed

lemma find_capped_empty:
  assumes "\<forall>w \<in> set ws. \<not> prefix (toLowerCase p) (toLowerCase w)"
  shows "find_capped cap (Trie_of ws) p = []"
proof (rule ccontr)
  assume "find_capped cap (Trie_of ws) p \<noteq> []"
  then obtain r where r: "r \<in> set (find_capped cap (Trie_of ws) p)"
    by (cases "find_capped cap (Trie_of ws) p") auto
  from find_capped_holds[OF unique_keys_Trie_of r] have "r \<in> toLowerCase ` set ws"
    by (simp add: holds_word_Trie_of)
  then obtain w where "w \<in> set ws" "r = toLowerCase w" by blast
  with find_capped_prefix(1)[OF r] assms show False by blast
qed


text \<open>
  C9. Every word \<open>find\<close> returns begins with the lowered prefix, and so does its own
  lowering; \<open>find\<close> returns at most 8 words (10 in the revision of
  \<^verbatim>\<open>src/unnamed/part_000\<close>); and on a trie built by insertions it returns nothing when no
  inserted word, lowered, begins with the lowered prefix.
\<close>

theorem Trie_find_contract:
  "(\<forall>w \<in> set (Trie_find t p). prefix (toLowerCase p) w \<and> prefix (toLowerCase p) (toLowerCase w))
 \<and> length (Trie_find t p) \<le> 8
 \<and> ((\<forall>w \<in> set ws. \<not> prefix (toLowerCase p) (toLowerCase w)) \<longrightarrow>
        Trie_find (Trie_of ws) p = [])
 \<and> (\<forall>w \<in> set (Trie_find_part_000 t p).
        prefix (toLowerCase p) w \<and> prefix (toLowerCase p) (toLowerCase w))
 \<and> length (Trie_find_part_000 t p) \<le> 10
 \<and> ((\<forall>w \<in> set ws. \<not> prefix (toLowerCase p) (toLowerCase w)) \<longrightarrow>
        Trie_find_part_000 (Trie_of ws) p = [])"
  unfolding Trie_find_def Trie_find_part_000_def
  using find_capped_prefix find_capped_length find_capped_empty by blast

theorem Trie_find_contract_witness:
  "Trie_find (Trie_of [''the'', ''Then'', ''editor'', ''a1'']) ''TH'' = [''the'', ''then'']
 \<and> prefix (toLowerCase ''TH'') ''the''
 \<and> prefix (toLowerCase ''TH'') ''then''
 \<and> length (Trie_find (Trie_of [''the'', ''Then'', ''editor'', ''a1'']) ''TH'') \<le> 8
 \<and> Trie_find (Trie_of [''the'', ''Then'', ''editor'', ''a1'']) ''x'' = []
 \<and> Trie_find_part_000 (Trie_of [''the'', ''Then'', ''editor'', ''a1'']) ''x'' = []"
proof -
  let ?ws = "[''the'', ''Then'', ''editor'', ''a1'']"
  have e: "Trie_find (Trie_of ?ws) ''TH'' = [''the'', ''then'']" by code_simp
  have n: "\<forall>w \<in> set ?ws. \<not> prefix (toLowerCase ''x'') (toLowerCase w)" by code_simp
  note c = Trie_find_contract[of "Trie_of ?ws" "''TH''" ?ws]
  note d = Trie_find_contract[of "Trie_of ?ws" "''x''" ?ws]
  from c e have 1: "prefix (toLowerCase ''TH'') ''the''" by simp
  from c e have 2: "prefix (toLowerCase ''TH'') ''then''" by simp
  from c have 3: "length (Trie_find (Trie_of ?ws) ''TH'') \<le> 8" by blast
  from d n have 4: "Trie_find (Trie_of ?ws) ''x'' = []" by blast
  from d n have 5: "Trie_find_part_000 (Trie_of ?ws) ''x'' = []" by blast
  from e 1 2 3 4 5 show ?thesis by blast
qed

subsection \<open>Spell check\<close>










subsection \<open>Update route\<close>

text \<open>
  C5. When the text sent to the update route equals the document's current text, the
  route answers success and changes nothing: the document keeps its buffer and both of
  its stacks, and the suggestion trie is the one it was.
\<close>

theorem update_file_same_text:
  assumes "files sv name = Some doc" and "Rope_toString (content doc) = T"
  shows "update_file sv name T = (Success, sv)
       \<and> files (snd (update_file sv name T)) name = Some doc
       \<and> suggestionTrie (snd (update_file sv name T)) = suggestionTrie sv"
  using assms by (simp add: update_file_def)

theorem update_file_same_text_witness:
  "files \<lparr>files = [''example.txt'' \<mapsto>
             \<lparr>content = Rope_new ''Welcome to the Editor.'',
                history = \<lparr>undoStack = [''Welcome''], redoStack = [''Welcome back''],
                            maxSize = 50\<rparr>\<rparr>],
           suggestionTrie = suggestionTrie_initial\<rparr> ''example.txt''
     = Some \<lparr>content = Rope_new ''Welcome to the Editor.'',
              history = \<lparr>undoStack = [''Welcome''], redoStack = [''Welcome back''],
                          maxSize = 50\<rparr>\<rparr>
 \<and> Rope_toString (Rope_new ''Welcome to the Editor.'') = ''Welcome to the Editor.''
 \<and> update_file
       \<lparr>files = [''example.txt'' \<mapsto>
             \<lparr>content = Rope_new ''Welcome to the Editor.'',
                history = \<lparr>undoStack = [''Welcome''], redoStack = [''Welcome back''],
                            maxSize = 50\<rparr>\<rparr>],
           suggestionTrie = suggestionTrie_initial\<rparr> ''example.txt'' ''Welcome to the Editor.''
     = (Success,
        \<lparr>files = [''example.txt'' \<mapsto>
             \<lparr>content = Rope_new ''Welcome to the Editor.'',
                history = \<lparr>undoStack = [''Welcome''], redoStack = [''Welcome back''],
                            maxSize = 50\<rparr>\<rparr>],
           suggestionTrie = suggestionTrie_initial\<rparr>)"
proof -
  let ?doc = "\<lparr>content = Rope_new ''Welcome to the Editor.'',
                history = \<lparr>undoStack = [''Welcome''], redoStack = [''Welcome back''],
                            maxSize = 50\<rparr>\<rparr>"
  let ?sv = "\<lparr>files = [''example.txt'' \<mapsto> ?doc], suggestionTrie = suggestionTrie_initial\<rparr>"
  have f: "files ?sv ''example.txt'' = Some ?doc" by simp
  have c: "Rope_toString (content ?doc) = ''Welcome to the Editor.''" by simp
  from update_file_same_text[OF f c] f c show ?thesis by simp
qed

text \<open>The revision of \<^verbatim>\<open>src/unnamed/part_000\<close> saves the state and learns the words before it
  looks at anything: the same request there pushes the unchanged text on an empty undo
  stack.\<close>

lemma update_file_part_000_same_text:
  "map_option (\<lambda>d. undoStack (history d))
     (files (snd (update_file_part_000
        \<lparr>files = [''example.txt'' \<mapsto>
             \<lparr>content = Rope_new ''Welcome'', history = UndoRedoManager_new\<rparr>],
           suggestionTrie = TrieNode_new\<rparr> ''example.txt'' ''Welcome'')) ''example.txt'')
   = Some [''Welcome'']"
  by (simp add: update_file_part_000_def saveState_def UndoRedoManager_new_def Let_def)

end
